theory Spec2Isabelle
  imports Complex_Main "HOL-Library.Word"
begin

section \<open>Errors and device frames\<close>

text \<open>
  The program is a single Python module, \<^verbatim>\<open>read_scale.py\<close>. Python exceptions are
  values of \<open>py_error\<close>; a function that can raise returns \<open>py_error + 'a\<close>, with
  \<open>Inl\<close> for the exception.
\<close>

datatype py_error = ValueError | OverflowError | ZeroDivisionError | OSError

type_synonym byte = "8 word"

definition BUFFER_WEIGHT_INDEX_HIGH :: nat where
  "BUFFER_WEIGHT_INDEX_HIGH = 6"

definition BUFFER_WEIGHT_INDEX_LOW :: nat where
  "BUFFER_WEIGHT_INDEX_LOW = 7"

text \<open>
  \<^verbatim>\<open>get_raw_weight(buffer)\<close>: a \<^verbatim>\<open>bytes\<close> object is a list of bytes, its elements read
  as Python integers between 0 and 255 (\<open>uint\<close>). The length test comes first, so both
  index reads are in range whenever they are evaluated.
\<close>

definition get_raw_weight :: "byte list \<Rightarrow> py_error + int" where
  "get_raw_weight buffer =
     (if length buffer < 8 then Inl ValueError
      else Inr (uint (buffer ! BUFFER_WEIGHT_INDEX_HIGH) * 256
                + uint (buffer ! BUFFER_WEIGHT_INDEX_LOW)))"

section \<open>Python floats\<close>

text \<open>
  A Python \<^verbatim>\<open>float\<close> is an IEEE 754 binary64 number. A finite one is modelled by its
  exact rational value, next to the two infinities and NaN. The two zeros are
  identified: the program only compares floats and takes absolute values before it
  formats them, and neither distinguishes \<open>-0.0\<close> from \<open>0.0\<close>.
\<close>

datatype pyfloat = Finite rat | PInf | NInf | NaN

fun bit_length :: "nat \<Rightarrow> nat" where
  "bit_length n = (if n = 0 then 0 else Suc (bit_length (n div 2)))"

declare bit_length.simps [simp del]

text \<open>\<open>ilog2 q\<close> is the binary exponent of a positive rational, the floor of its logarithm.\<close>

definition ilog2 :: "rat \<Rightarrow> int" where
  "ilog2 q = (case quotient_of q of (a, b) \<Rightarrow>
     (let d = int (bit_length (nat a)) - int (bit_length (nat b))
      in if 2 powi d \<le> q then d else d - 1))"

definition round_half_even :: "rat \<Rightarrow> int" where
  "round_half_even x = (let f = \<lfloor>x\<rfloor>; d = x - of_int f in
     if d < 1 / 2 then f else if 1 / 2 < d then f + 1 else if even f then f else f + 1)"

text \<open>
  Rounding to nearest, ties to even, gives the result of every arithmetic operation and
  the value of every decimal literal. The significand has 53 bits, so the unit in the
  last place of \<open>q\<close> is 52 binary places below its leading bit, but never below
  \<open>2 powi (-1074)\<close> (subnormal numbers); a rounded magnitude of \<open>2 powi 1024\<close> or more
  overflows to an infinity.
\<close>

definition ulp_exponent :: "rat \<Rightarrow> int" where
  "ulp_exponent q = max (ilog2 \<bar>q\<bar> - 52) (- 1074)"

definition round_nearest_even :: "rat \<Rightarrow> rat" where
  "round_nearest_even q =
     (if q = 0 then 0
      else of_int (round_half_even (q / 2 powi ulp_exponent q)) * 2 powi ulp_exponent q)"

definition binary64 :: "rat \<Rightarrow> pyfloat" where
  "binary64 q =
     (let r = round_nearest_even q
      in if 2 powi 1024 \<le> r then PInf else if r \<le> - (2 powi 1024) then NInf else Finite r)"

fun fsign :: "pyfloat \<Rightarrow> int" where
  "fsign (Finite q) = (if q < 0 then - 1 else if q = 0 then 0 else 1)"
| "fsign PInf = 1"
| "fsign NInf = - 1"
| "fsign NaN = 0"

fun fneg :: "pyfloat \<Rightarrow> pyfloat" where
  "fneg (Finite q) = Finite (- q)"
| "fneg PInf = NInf"
| "fneg NInf = PInf"
| "fneg NaN = NaN"

fun fabs :: "pyfloat \<Rightarrow> pyfloat" where
  "fabs (Finite q) = Finite \<bar>q\<bar>"
| "fabs PInf = PInf"
| "fabs NInf = PInf"
| "fabs NaN = NaN"

text \<open>Comparisons: every comparison with NaN is false.\<close>

fun flt :: "pyfloat \<Rightarrow> pyfloat \<Rightarrow> bool" where
  "flt NaN y = False"
| "flt x NaN = False"
| "flt (Finite a) (Finite b) = (a < b)"
| "flt (Finite a) PInf = True"
| "flt NInf (Finite b) = True"
| "flt NInf PInf = True"
| "flt x y = False"

fun fge :: "pyfloat \<Rightarrow> pyfloat \<Rightarrow> bool" where
  "fge NaN y = False"
| "fge x NaN = False"
| "fge x y = (\<not> flt x y)"

text \<open>
  Arithmetic on two floats. Division, floor division and remainder raise
  \<^verbatim>\<open>ZeroDivisionError\<close> on a zero divisor, whatever the dividend.
\<close>

fun fmul :: "pyfloat \<Rightarrow> pyfloat \<Rightarrow> pyfloat" where
  "fmul NaN y = NaN"
| "fmul x NaN = NaN"
| "fmul (Finite a) (Finite b) = binary64 (a * b)"
| "fmul x y = (if fsign x * fsign y = 0 then NaN
               else if 0 < fsign x * fsign y then PInf else NInf)"

fun fsub :: "pyfloat \<Rightarrow> pyfloat \<Rightarrow> pyfloat" where
  "fsub NaN y = NaN"
| "fsub x NaN = NaN"
| "fsub (Finite a) (Finite b) = binary64 (a - b)"
| "fsub PInf PInf = NaN"
| "fsub NInf NInf = NaN"
| "fsub PInf y = PInf"
| "fsub NInf y = NInf"
| "fsub x PInf = NInf"
| "fsub x NInf = PInf"

fun float_truediv :: "pyfloat \<Rightarrow> pyfloat \<Rightarrow> py_error + pyfloat" where
  "float_truediv x (Finite b) =
     (if b = 0 then Inl ZeroDivisionError
      else Inr (case x of
                  Finite a \<Rightarrow> binary64 (a / b)
                | NaN \<Rightarrow> NaN
                | _ \<Rightarrow> if 0 < fsign x * fsign (Finite b) then PInf else NInf))"
| "float_truediv NaN y = Inr NaN"
| "float_truediv x NaN = Inr NaN"
| "float_truediv (Finite a) y = Inr (Finite 0)"
| "float_truediv x y = Inr NaN"

text \<open>
  \<^verbatim>\<open>x // y\<close> and \<^verbatim>\<open>x % y\<close>. CPython takes both from C's \<^verbatim>\<open>fmod\<close>, whose result is exact,
  and gives the remainder the sign of the divisor. For finite operands the model rounds
  the exact floored quotient and the exact remainder; for a divisor that is a power of
  two, as the 16 of the program's only call, nothing is lost in either. An infinite
  dividend gives NaN; with an infinite divisor the quotient is 0 or -1.
\<close>

fun float_floor_div :: "pyfloat \<Rightarrow> pyfloat \<Rightarrow> py_error + pyfloat" where
  "float_floor_div x (Finite b) =
     (if b = 0 then Inl ZeroDivisionError
      else Inr (case x of Finite a \<Rightarrow> binary64 (of_int \<lfloor>a / b\<rfloor>) | _ \<Rightarrow> NaN))"
| "float_floor_div NaN y = Inr NaN"
| "float_floor_div x NaN = Inr NaN"
| "float_floor_div (Finite a) y =
     Inr (Finite (if a = 0 \<or> fsign (Finite a) = fsign y then 0 else - 1))"
| "float_floor_div x y = Inr NaN"

fun float_rem :: "pyfloat \<Rightarrow> pyfloat \<Rightarrow> py_error + pyfloat" where
  "float_rem x (Finite b) =
     (if b = 0 then Inl ZeroDivisionError
      else Inr (case x of Finite a \<Rightarrow> binary64 (a - b * of_int \<lfloor>a / b\<rfloor>) | _ \<Rightarrow> NaN))"
| "float_rem NaN y = Inr NaN"
| "float_rem x NaN = Inr NaN"
| "float_rem (Finite a) y =
     Inr (if a = 0 \<or> fsign (Finite a) = fsign y then Finite a else y)"
| "float_rem x y = Inr NaN"

text \<open>
  Conversions between \<^verbatim>\<open>int\<close> and \<^verbatim>\<open>float\<close>. An integer operand of a float operation is
  converted first, and an integer too large for a float raises \<^verbatim>\<open>OverflowError\<close>;
  \<^verbatim>\<open>int(x)\<close> truncates towards zero and raises on an infinity or NaN. A comparison of a
  float with an integer is exact.
\<close>

definition float_of_int :: "int \<Rightarrow> py_error + pyfloat" where
  "float_of_int k = (case binary64 (of_int k) of
                       Finite r \<Rightarrow> Inr (Finite r)
                     | _ \<Rightarrow> Inl OverflowError)"

fun int_of_float :: "pyfloat \<Rightarrow> py_error + int" where
  "int_of_float (Finite q) = Inr (if 0 \<le> q then \<lfloor>q\<rfloor> else - \<lfloor>- q\<rfloor>)"
| "int_of_float NaN = Inl ValueError"
| "int_of_float x = Inl OverflowError"

definition fge_int :: "pyfloat \<Rightarrow> int \<Rightarrow> bool" where
  "fge_int x k = fge x (Finite (of_int k))"

section \<open>Rendering numbers\<close>

definition digit_char :: "nat \<Rightarrow> char" where
  "digit_char d = ''0123456789'' ! (d mod 10)"

fun str_nat :: "nat \<Rightarrow> string" where
  "str_nat n = (if n < 10 then [digit_char n]
                else str_nat (n div 10) @ [digit_char (n mod 10)])"

declare str_nat.simps [simp del]

definition str_int :: "int \<Rightarrow> string" where
  "str_int i = (if i < 0 then ''-'' @ str_nat (nat (- i)) else str_nat (nat i))"

text \<open>\<open>pad_digits d m\<close>: the last \<open>d\<close> decimal digits of \<open>m\<close>, with leading zeros.\<close>

fun pad_digits :: "nat \<Rightarrow> nat \<Rightarrow> string" where
  "pad_digits 0 m = []"
| "pad_digits (Suc d) m = pad_digits d (m div 10) @ [digit_char (m mod 10)]"

text \<open>
  \<open>fixed d q\<close> renders a non-negative value with \<open>d\<close> decimals. Python's \<^verbatim>\<open>f\<close>
  format rounds the exact binary value correctly, ties to even, and never switches to
  an exponent.
\<close>

definition fixed :: "nat \<Rightarrow> rat \<Rightarrow> string" where
  "fixed d q = (let n = nat (round_half_even (q * 10 ^ d)) in
     if d = 0 then str_nat n
     else str_nat (n div 10 ^ d) @ ''.'' @ pad_digits d (n mod 10 ^ d))"

text \<open>\<^verbatim>\<open>f"{x:.df}"\<close>\<close>

fun format_f :: "nat \<Rightarrow> pyfloat \<Rightarrow> string" where
  "format_f d (Finite q) = (if q < 0 then ''-'' else '''') @ fixed d \<bar>q\<bar>"
| "format_f d PInf = ''inf''"
| "format_f d NInf = ''-inf''"
| "format_f d NaN = ''nan''"

section \<open>Weight decoder\<close>

definition WEIGHT_CALIBRATION_MULTIPLIER :: pyfloat where
  "WEIGHT_CALIBRATION_MULTIPLIER = binary64 (1286 / 100000)"

definition GRAMS_PER_OUNCE :: pyfloat where
  "GRAMS_PER_OUNCE = binary64 (283495 / 10000)"

definition OUNCES_PER_POUND :: int where
  "OUNCES_PER_POUND = 16"

definition GRAMS_PER_KILOGRAM :: int where
  "GRAMS_PER_KILOGRAM = 1000"

text \<open>
  \<^verbatim>\<open>get_calibrated_weight(raw_value, tare_offset)\<close>: the difference is a Python integer,
  converted to a float by the multiplication.
\<close>

definition get_calibrated_weight :: "int \<Rightarrow> int \<Rightarrow> py_error + pyfloat" where
  "get_calibrated_weight raw_value tare_offset =
     (let delta = raw_value - tare_offset in
      case float_of_int delta of
        Inl e \<Rightarrow> Inl e
      | Inr d \<Rightarrow> Inr (fmul d WEIGHT_CALIBRATION_MULTIPLIER))"

text \<open>
  \<^verbatim>\<open>format_weight_display(weight_oz, is_metric)\<close>. Its local \<^verbatim>\<open>prefix\<close> compares the
  weight with the negated float literal 0.01.
\<close>

definition sign_prefix :: "pyfloat \<Rightarrow> string" where
  "sign_prefix weight_oz = (if flt weight_oz (fneg (binary64 (1 / 100))) then ''-'' else '''')"

definition format_weight_display :: "pyfloat \<Rightarrow> bool \<Rightarrow> py_error + string" where
  "format_weight_display weight_oz is_metric =
     (let abs_weight = fabs weight_oz;
          prefix = sign_prefix weight_oz
      in
      if is_metric then
        (let grams = fmul weight_oz GRAMS_PER_OUNCE in
         if fge_int (fabs grams) GRAMS_PER_KILOGRAM then
           (case float_of_int GRAMS_PER_KILOGRAM of
              Inl e \<Rightarrow> Inl e
            | Inr k \<Rightarrow>
               (case float_truediv (fabs grams) k of
                  Inl e \<Rightarrow> Inl e
                | Inr kg \<Rightarrow> Inr (prefix @ format_f 3 kg @ '' kg'')))
         else Inr (prefix @ format_f 1 (fabs grams) @ '' g''))
      else
        if fge_int abs_weight OUNCES_PER_POUND then
          (case float_of_int OUNCES_PER_POUND of
             Inl e \<Rightarrow> Inl e
           | Inr k \<Rightarrow>
              (case float_floor_div abs_weight k of
                 Inl e \<Rightarrow> Inl e
               | Inr quot \<Rightarrow>
                  (case int_of_float quot of
                     Inl e \<Rightarrow> Inl e
                   | Inr lbs \<Rightarrow>
                      (case float_rem abs_weight k of
                         Inl e \<Rightarrow> Inl e
                       | Inr rem_oz \<Rightarrow>
                          Inr (prefix @ str_int lbs @ '' lb '' @ format_f 2 rem_oz
                               @ '' oz'')))))
        else Inr (prefix @ format_f 2 abs_weight @ '' oz''))"

section \<open>Key listener\<close>

text \<open>
  \<^verbatim>\<open>keyboard_listener\<close> runs on its own thread. One iteration of its loop sees one of
  these events: the stop flag is set, \<^verbatim>\<open>select\<close> times out, \<^verbatim>\<open>read(1)\<close> returns the empty
  string, \<^verbatim>\<open>read(1)\<close> raises, or a key is read and \<^verbatim>\<open>time.time()\<close> then returns
  the given finite float. The listener's state is the shared slot \<^verbatim>\<open>state["action"]\<close> and
  its local \<^verbatim>\<open>last_action_time\<close> (initially the integer 0, which a float operation reads
  as 0.0). The field \<open>writes\<close> is the history of the listener's assignments to the slot,
  each with the \<^verbatim>\<open>current_time\<close> of the iteration that made it.
\<close>

datatype key_event =
  StopRequested | SelectTimeout | EndOfInput | ReadFailed py_error | KeyPress char rat

record listener =
  action :: "string option"
  last_action_time :: pyfloat
  writes :: "(string \<times> rat) list"

datatype 'a flow = Continue 'a | Break 'a

text \<open>
  \<^verbatim>\<open>key.upper()\<close>, for a key of one character. Outside \<open>a\<close> to \<open>z\<close> Python may
  change the character, but never to \<open>T\<close>, \<open>R\<close> or \<open>M\<close>, which is all the listener
  compares the result with.
\<close>

definition py_upper :: "char \<Rightarrow> char" where
  "py_upper c = (if 97 \<le> (of_char c :: nat) \<and> (of_char c :: nat) \<le> 122
                 then char_of ((of_char c :: nat) - 32) else c)"

definition publish :: "listener \<Rightarrow> string \<Rightarrow> rat \<Rightarrow> listener" where
  "publish L token t = L\<lparr>action := Some token, writes := writes L @ [(token, t)]\<rparr>"

definition listener_step :: "listener \<Rightarrow> key_event \<Rightarrow> listener flow" where
  "listener_step L ev =
     (case ev of
        StopRequested \<Rightarrow> Break L
      | SelectTimeout \<Rightarrow> Continue L
      | EndOfInput \<Rightarrow> Break L
      | ReadFailed e \<Rightarrow> Continue L
      | KeyPress key t \<Rightarrow>
          (let key_upper = py_upper key; current_time = Finite t in
           if flt (fsub current_time (last_action_time L)) (binary64 (2 / 10)) then Continue L
           else if key_upper = CHR ''T'' then
             Continue ((publish L ''tare'' t)\<lparr>last_action_time := current_time\<rparr>)
           else if key_upper = CHR ''R'' then
             Continue ((publish L ''reset'' t)\<lparr>last_action_time := current_time\<rparr>)
           else if key_upper = CHR ''M'' then
             Continue ((publish L ''toggle_units'' t)\<lparr>last_action_time := current_time\<rparr>)
           else if key = CHR 0x1B then Break (publish L ''exit_esc'' t)
           else if key = CHR 0x03 then Break (publish L ''exit_ctrl_c'' t)
           else Continue L))"

fun keyboard_listener :: "listener \<Rightarrow> key_event list \<Rightarrow> listener" where
  "keyboard_listener L [] = L"
| "keyboard_listener L (ev # evs) =
     (case listener_step L ev of
        Break L' \<Rightarrow> L'
      | Continue L' \<Rightarrow> keyboard_listener L' evs)"

definition listener_start :: listener where
  "listener_start = \<lparr>action = None, last_action_time = Finite 0, writes = []\<rparr>"

section \<open>Scale session\<close>

text \<open>
  The effects of \<^verbatim>\<open>main\<close> are a trace of events: what is printed, written to standard
  output or handed to the logger, and the calls on the device and the listener thread.
\<close>

datatype event =
  Print string
  | StdoutWrite string
  | LogInfo string
  | LogError string
  | LogDebug string py_error
  | LogDebugMsg string
  | InstallSigint
  | StreamRead
  | SetNonblocking
  | ListenerStart
  | ListenerStop
  | StreamClose
  | Sleep

record session =
  absolute_zero :: int
  current_offset :: int
  is_metric :: bool
  current_raw :: int

text \<open>The action dispatch of the main loop; \<open>Break\<close> leaves the loop.\<close>

definition apply_action :: "session \<Rightarrow> string option \<Rightarrow> session flow" where
  "apply_action s act =
     (if act = Some ''tare'' then Continue (s\<lparr>current_offset := current_raw s\<rparr>)
      else if act = Some ''reset'' then Continue (s\<lparr>current_offset := absolute_zero s\<rparr>)
      else if act = Some ''toggle_units'' then Continue (s\<lparr>is_metric := \<not> is_metric s\<rparr>)
      else if act = Some ''exit_esc'' \<or> act = Some ''exit_ctrl_c'' then Break s
      else Continue s)"

definition status_line :: "string \<Rightarrow> int \<Rightarrow> string" where
  "status_line display delta =
     [CHR 0x0D] @ ''Weight: '' @ display @ '' (Raw: '' @ str_int delta @ '')      ''"

text \<open>
  The device poll of one iteration, a \<^verbatim>\<open>try\<close> block whose handler logs any exception at
  debug level. \<open>rd\<close> is what \<^verbatim>\<open>stream.read(64)\<close> does: raise, or return a list of bytes,
  empty when no report is waiting.
\<close>

definition poll_device :: "session \<Rightarrow> py_error + byte list \<Rightarrow> session \<times> event list" where
  "poll_device s rd =
     (case rd of
        Inl e \<Rightarrow> (s, [StreamRead, LogDebug ''Read error: '' e])
      | Inr data \<Rightarrow>
          if data = [] then (s, [StreamRead])
          else
            (case get_raw_weight data of
               Inl e \<Rightarrow> (s, [StreamRead, LogDebug ''Read error: '' e])
             | Inr raw \<Rightarrow>
                 (let s' = s\<lparr>current_raw := raw\<rparr> in
                  case get_calibrated_weight (current_raw s') (current_offset s') of
                    Inl e \<Rightarrow> (s', [StreamRead, LogDebug ''Read error: '' e])
                  | Inr weight_oz \<Rightarrow>
                      (let delta = current_raw s' - current_offset s' in
                       case format_weight_display weight_oz (is_metric s') of
                         Inl e \<Rightarrow> (s', [StreamRead, LogDebug ''Read error: '' e])
                       | Inr display \<Rightarrow>
                           (s', [StreamRead, StdoutWrite (status_line display delta)])))))"

text \<open>
  One iteration of the main loop reads the interrupt flag, fetches and clears the slot
  (\<open>pending\<close> is what it finds there), applies the action, polls the device and sleeps.
  The loop is run over the list of what the iterations observe; \<open>Unfinished\<close> says that
  the observations end while the loop is still running.
\<close>

record tick =
  interrupted :: bool
  pending :: "string option"
  device :: "py_error + byte list"

datatype loop_end = Exited | Unfinished

fun main_loop :: "session \<Rightarrow> tick list \<Rightarrow> session \<times> event list \<times> loop_end" where
  "main_loop s [] = (s, [], Unfinished)"
| "main_loop s (t # ts) =
     (if interrupted t then (s, [], Exited)
      else
        (case apply_action s (pending t) of
           Break s' \<Rightarrow> (s', [], Exited)
         | Continue s' \<Rightarrow>
             (case poll_device s' (device t) of
                (s'', evs) \<Rightarrow>
                  (case main_loop s'' ts of
                     (sf, evs', fin) \<Rightarrow> (sf, evs @ [Sleep] @ evs', fin)))))"

text \<open>
  \<^verbatim>\<open>connect_scale\<close>: the HID library is outside the program; \<open>hid\<close> records what its
  calls do. Every exception is caught and turns into \<^verbatim>\<open>None\<close>.
\<close>

record hid =
  enumerate :: "py_error + string list"
  open_path :: "py_error + unit"
  get_manufacturer_string :: "py_error + string"

definition connect_failed :: "py_error \<Rightarrow> bool \<times> event list" where
  "connect_failed e =
     (False, [if e = OSError then LogDebug ''OSError opening device: '' e
              else LogDebug ''Exception opening device: '' e])"

definition connect_scale :: "hid \<Rightarrow> bool \<times> event list" where
  "connect_scale h =
     (case enumerate h of
        Inl e \<Rightarrow> connect_failed e
      | Inr devices \<Rightarrow>
          if devices = [] then
            (False, [LogDebugMsg ''No devices found with VID=0x2233 PID=0x6323''])
          else
            (case open_path h of
               Inl e \<Rightarrow> connect_failed e
             | Inr u \<Rightarrow>
                 (case get_manufacturer_string h of
                    Inl e \<Rightarrow> connect_failed e
                  | Inr device_info \<Rightarrow>
                      (True, [LogInfo (''Successfully opened HID device: '' @ device_info)]))))"

definition help_message :: string where
  "help_message = ''RadioShack 26-950 | T: Tare | R: Reset | M: Units | ESC: Exit''"

definition error_message :: string where
  "error_message =
     ''Device not found or could not be opened.'' @ [CHR 0x0A, CHR 0x0A]
     @ ''Troubleshooting steps:'' @ [CHR 0x0A]
     @ ''  - Make sure the RadioShack 26-950 scale is connected and powered on.'' @ [CHR 0x0A]
     @ ''  - Verify the USB VID/PID (expected VID=0x2233, PID=0x6323).'' @ [CHR 0x0A]
     @ ''  - Check device permissions: you may need to run with sudo or configure udev rules.''
     @ [CHR 0x0A]
     @ ''  - Ensure no other application is currently using the device.'' @ [CHR 0x0A]
     @ ''  - On Linux, verify the device appears in: lsusb | grep 2233'' @ [CHR 0x0A]"

text \<open>
  \<^verbatim>\<open>main\<close>, given the HID library, the first (blocking) read and the observations of the
  loop. It returns, or an exception leaves it, or the observations end inside the loop.
  The outer \<^verbatim>\<open>finally\<close> closes the stream on every path after the device was opened.
\<close>

datatype outcome = Returned | Raised py_error | Running

definition closing :: "event list" where
  "closing = [StreamClose, LogInfo ''HID stream closed'', Print []]"

definition main :: "hid \<Rightarrow> py_error + byte list \<Rightarrow> tick list \<Rightarrow> event list \<times> outcome" where
  "main h first_read ticks =
     (case connect_scale h of
        (opened, evs0) \<Rightarrow>
          if \<not> opened then (evs0 @ [Print error_message], Returned)
          else
            (case first_read of
               Inl e \<Rightarrow> (evs0 @ [InstallSigint, StreamRead] @ closing, Raised e)
             | Inr data \<Rightarrow>
                 if data = [] then
                   (evs0 @ [InstallSigint, StreamRead,
                            LogError ''Failed to read initial data from device''] @ closing,
                    Returned)
                 else
                   (case get_raw_weight data of
                      Inl e \<Rightarrow> (evs0 @ [InstallSigint, StreamRead] @ closing, Raised e)
                    | Inr zero \<Rightarrow>
                        (let s0 = \<lparr>absolute_zero = zero, current_offset = zero,
                                   is_metric = False, current_raw = zero\<rparr>;
                             startup = evs0 @ [InstallSigint, StreamRead, Print help_message,
                                               ListenerStart, SetNonblocking]
                         in
                         case main_loop s0 ticks of
                           (s, evs, Exited) \<Rightarrow>
                             (startup @ evs @ [ListenerStop] @ closing, Returned)
                         | (s, evs, Unfinished) \<Rightarrow> (startup @ evs, Running)))))"

text \<open>
  A read that gives the loop no new frame: it raises, or it returns fewer than 8 bytes
  (none, when no report is waiting).
\<close>

definition failed_read :: "py_error + byte list \<Rightarrow> bool" where
  "failed_read rd = (case rd of Inl e \<Rightarrow> True | Inr data \<Rightarrow> length data < 8)"

section \<open>Properties of rounding\<close>

lemma bit_length_bounds:
  "0 < n \<Longrightarrow> 2 ^ (bit_length n - 1) \<le> n \<and> n < 2 ^ bit_length n"
proof (induction n rule: bit_length.induct)
  case (1 n)
  show ?case
  proof (cases "n div 2 = 0")
    case True
    with "1.prems" have "n = 1" by (simp add: div_eq_0_iff) 
    then show ?thesis by (simp add: bit_length.simps [of "Suc 0"] bit_length.simps [of 0])
  next
    case False
    then have pos: "0 < n div 2" by simp
    from "1.prems" have n0: "n \<noteq> 0" by simp
    from "1.IH" [OF n0 pos]
    have lo: "2 ^ (bit_length (n div 2) - 1) \<le> n div 2"
      and hi: "n div 2 < 2 ^ bit_length (n div 2)" by simp_all
    have bl: "bit_length n = Suc (bit_length (n div 2))"
      using n0 by (simp add: bit_length.simps [of n])
    have blpos: "0 < bit_length (n div 2)"
      using pos by (simp add: bit_length.simps [of "n div 2"])
    have "(2::nat) ^ bit_length (n div 2) = 2 * 2 ^ (bit_length (n div 2) - 1)"
      using blpos by (cases "bit_length (n div 2)") simp_all
    with lo have "2 ^ bit_length (n div 2) \<le> 2 * (n div 2)" by simp
    then have A: "2 ^ (bit_length n - 1) \<le> n" using bl by simp
    from hi have "Suc (n div 2) \<le> 2 ^ bit_length (n div 2)" by simp
    then have "2 * Suc (n div 2) \<le> 2 * 2 ^ bit_length (n div 2)" by simp
    then have B: "n < 2 ^ bit_length n" using bl by simp
    from A B show ?thesis by simp
  qed
qed

lemma bit_length_pos: "0 < n \<Longrightarrow> 0 < bit_length n"
  by (simp add: bit_length.simps [of n])

lemma pow2_pos [simp]: "0 < (2::rat) powi k"
  by simp

lemma pow2_less_cancel: "(2::rat) powi a < 2 powi b \<Longrightarrow> a < b"
  by (rule ccontr) (use power_int_increasing [of b a "2::rat"] in auto)

lemma pow2_le_cancel: "(2::rat) powi a \<le> 2 powi b \<Longrightarrow> a \<le> b"
  by (rule ccontr) (use power_int_strict_increasing [of b a "2::rat"] in auto)

lemma pow2_mono: "a \<le> b \<Longrightarrow> (2::rat) powi a \<le> 2 powi b"
  by (rule power_int_increasing) simp_all

lemma pow2_add: "(2::rat) powi (a + b) = 2 powi a * 2 powi b"
  by (simp add: power_int_add)

lemma pow2_diff: "(2::rat) powi (a - b) = 2 powi a / 2 powi b"
  by (simp add: power_int_diff)

lemma ilog2_bounds:
  assumes "0 < q"
  shows "2 powi (ilog2 q) \<le> q \<and> q < 2 powi (ilog2 q + 1)"
proof -
  obtain a b where ab: "quotient_of q = (a, b)" by (cases "quotient_of q")
  then have bpos: "0 < b" using quotient_of_denom_pos by blast
  have q: "q = of_int a / of_int b" using ab by (rule quotient_of_div)
  have apos: "0 < a"
    using assms bpos unfolding q by (simp add: zero_less_divide_iff)
  define la where "la = bit_length (nat a)"
  define lb where "lb = bit_length (nat b)"
  have la: "2 ^ (la - 1) \<le> nat a \<and> nat a < 2 ^ la"
    unfolding la_def by (rule bit_length_bounds) (use apos in simp)
  have la0: "0 < la"
    unfolding la_def by (rule bit_length_pos) (use apos in simp)
  have lb: "2 ^ (lb - 1) \<le> nat b \<and> nat b < 2 ^ lb"
    unfolding lb_def by (rule bit_length_bounds) (use bpos in simp)
  have lb0: "0 < lb"
    unfolding lb_def by (rule bit_length_pos) (use bpos in simp)
  have ra: "(2::rat) ^ (la - 1) \<le> of_int a" "(of_int a :: rat) < 2 ^ la"
  proof -
    have "(of_nat (2 ^ (la - 1)) :: rat) \<le> of_nat (nat a)" using la by (simp only: of_nat_le_iff)
    then show "(2::rat) ^ (la - 1) \<le> of_int a" using apos by simp
    have "(of_nat (nat a) :: rat) < of_nat (2 ^ la)" using la by (simp only: of_nat_less_iff)
    then show "(of_int a :: rat) < 2 ^ la" using apos by simp
  qed
  have rb: "(2::rat) ^ (lb - 1) \<le> of_int b" "(of_int b :: rat) < 2 ^ lb"
  proof -
    have "(of_nat (2 ^ (lb - 1)) :: rat) \<le> of_nat (nat b)" using lb by (simp only: of_nat_le_iff)
    then show "(2::rat) ^ (lb - 1) \<le> of_int b" using bpos by simp
    have "(of_nat (nat b) :: rat) < of_nat (2 ^ lb)" using lb by (simp only: of_nat_less_iff)
    then show "(of_int b :: rat) < 2 ^ lb" using bpos by simp
  qed
  define d where "d = int la - int lb"
  have pa: "(2::rat) ^ la = 2 powi (int la)" "(2::rat) ^ (la - 1) = 2 powi (int la - 1)"
    using la0 by (simp_all add: power_int_def nat_diff_distrib')
  have pb: "(2::rat) ^ lb = 2 powi (int lb)" "(2::rat) ^ (lb - 1) = 2 powi (int lb - 1)"
    using lb0 by (simp_all add: power_int_def nat_diff_distrib')
  have bq: "(0::rat) < of_int b" using bpos by simp
  have upper: "q < 2 powi (d + 1)"
  proof -
    have e2: "d + 1 + (int lb - 1) = int la"
      unfolding d_def by simp
    have "(2::rat) powi (d + 1) * 2 powi (int lb - 1) = 2 powi (int la)"
      using e2 by (simp only: pow2_add [symmetric])
    then have "of_int a < 2 powi (d + 1) * (2::rat) powi (int lb - 1)"
      using ra(2) unfolding pa by simp
    also have "\<dots> \<le> 2 powi (d + 1) * of_int b"
      using rb(1) unfolding pb by (simp add: mult_left_mono)
    finally show ?thesis unfolding q using bq by (simp add: pos_divide_less_eq)
  qed
  have lower: "2 powi (d - 1) < q"
  proof -
    have e1: "d - 1 + int lb = int la - 1"
      unfolding d_def by simp
    have "2 powi (d - 1) * of_int b < 2 powi (d - 1) * (2::rat) powi (int lb)"
      using rb(2) unfolding pb by simp
    also have "\<dots> = 2 powi (int la - 1)"
      using e1 by (simp only: pow2_add [symmetric])
    also have "\<dots> \<le> of_int a" using ra(1) unfolding pa .
    finally show ?thesis unfolding q using bq by (simp add: pos_less_divide_eq)
  qed
  have il: "ilog2 q = (if 2 powi d \<le> q then d else d - 1)"
    unfolding ilog2_def ab d_def la_def lb_def by (simp add: Let_def)
  show ?thesis
  proof (cases "2 powi d \<le> q")
    case True
    then show ?thesis using il upper by simp
  next
    case False
    then show ?thesis using il lower by simp
  qed
qed

lemma ilog2_unique:
  assumes "2 powi e \<le> q" "q < 2 powi (e + 1)"
  shows "ilog2 q = e"
proof -
  have "0 < (2::rat) powi e" by simp
  with assms(1) have qpos: "0 < q" by linarith
  from ilog2_bounds [OF qpos]
  have b: "2 powi (ilog2 q) \<le> q" "q < 2 powi (ilog2 q + 1)" by simp_all
  from b(1) assms(2) have "(2::rat) powi (ilog2 q) < 2 powi (e + 1)" by linarith
  then have 1: "ilog2 q < e + 1" by (rule pow2_less_cancel)
  from assms(1) b(2) have "(2::rat) powi e < 2 powi (ilog2 q + 1)" by linarith
  then have 2: "e < ilog2 q + 1" by (rule pow2_less_cancel)
  from 1 2 show ?thesis by simp
qed

lemma ilog2_mono:
  assumes "0 < x" "x \<le> y"
  shows "ilog2 x \<le> ilog2 y"
proof -
  from assms have ypos: "0 < y" by simp
  from ilog2_bounds [OF assms(1)] ilog2_bounds [OF ypos] assms(2)
  have "(2::rat) powi (ilog2 x) < 2 powi (ilog2 y + 1)" by linarith
  then have "ilog2 x < ilog2 y + 1" by (rule pow2_less_cancel)
  then show ?thesis by simp
qed

lemma rhe_floor_bounds: "\<lfloor>x\<rfloor> \<le> round_half_even x \<and> round_half_even x \<le> \<lfloor>x\<rfloor> + 1"
  by (simp add: round_half_even_def Let_def)

lemma rhe_char:
  "\<bar>x - of_int (round_half_even x)\<bar> < 1 / 2
   \<or> (\<bar>x - of_int (round_half_even x)\<bar> = 1 / 2 \<and> even (round_half_even x))"
proof -
  define f where "f = \<lfloor>x\<rfloor>"
  have "of_int f \<le> x" "x < of_int f + 1" unfolding f_def by linarith+
  then have "\<bar>x - of_int (if x - of_int f < 1 / 2 then f else if 1 / 2 < x - of_int f then f + 1
               else if even f then f else f + 1)\<bar> < 1 / 2
     \<or> (\<bar>x - of_int (if x - of_int f < 1 / 2 then f else if 1 / 2 < x - of_int f then f + 1
               else if even f then f else f + 1)\<bar> = 1 / 2
        \<and> even (if x - of_int f < 1 / 2 then f else if 1 / 2 < x - of_int f then f + 1
               else if even f then f else f + 1))"
    by (auto simp: abs_if)
  then show ?thesis
    unfolding round_half_even_def Let_def f_def .
qed

lemma rhe_unique:
  assumes "\<bar>x - of_int n\<bar> < 1 / 2 \<or> (\<bar>x - of_int n\<bar> = 1 / 2 \<and> even n)"
  shows "round_half_even x = n"
proof -
  define m where "m = round_half_even x"
  have c: "\<bar>x - of_int m\<bar> < 1 / 2 \<or> (\<bar>x - of_int m\<bar> = 1 / 2 \<and> even m)"
    unfolding m_def by (rule rhe_char)
  have "\<bar>(of_int m :: rat) - of_int n\<bar> \<le> 1"
    using assms c by (auto simp: abs_if split: if_splits)
  then have "\<bar>of_int (m - n) :: rat\<bar> \<le> 1" by simp
  then have d: "\<bar>m - n\<bar> \<le> 1" by (simp only: of_int_abs [symmetric] of_int_le_1_iff)
  show ?thesis
  proof (rule ccontr)
    assume "round_half_even x \<noteq> n"
    then have ne: "m \<noteq> n" by (simp add: m_def)
    with d have "m = n + 1 \<or> m = n - 1" by auto
    then show False
    proof
      assume mn: "m = n + 1"
      then have "(of_int m :: rat) = of_int n + 1" by simp
      with assms c have "\<bar>x - of_int n\<bar> = 1 / 2 \<and> even n \<and> even m"
        by (auto simp: abs_if split: if_splits)
      with mn show False by simp
    next
      assume mn: "m = n - 1"
      then have "(of_int m :: rat) = of_int n - 1" by simp
      with assms c have "\<bar>x - of_int n\<bar> = 1 / 2 \<and> even n \<and> even m"
        by (auto simp: abs_if split: if_splits)
      with mn show False by simp
    qed
  qed
qed

lemma rhe_of_int [simp]: "round_half_even (of_int n) = n"
  by (rule rhe_unique) simp

lemma rhe_minus: "round_half_even (- x) = - round_half_even x"
proof (rule rhe_unique)
  have "\<bar>- x - of_int (- round_half_even x)\<bar> = \<bar>x - of_int (round_half_even x)\<bar>"
    by (simp add: abs_if)
  then show "\<bar>- x - of_int (- round_half_even x)\<bar> < 1 / 2 \<or>
    \<bar>- x - of_int (- round_half_even x)\<bar> = 1 / 2 \<and> even (- round_half_even x)"
    using rhe_char [of x] by simp
qed

lemma rhe_mono:
  assumes "x \<le> y"
  shows "round_half_even x \<le> round_half_even y"
proof (cases "\<lfloor>x\<rfloor> = \<lfloor>y\<rfloor>")
  case True
  then show ?thesis
    using assms unfolding round_half_even_def Let_def by auto
next
  case False
  moreover have "\<lfloor>x\<rfloor> \<le> \<lfloor>y\<rfloor>" using assms by (rule floor_mono)
  ultimately have "\<lfloor>x\<rfloor> + 1 \<le> \<lfloor>y\<rfloor>" by simp
  then show ?thesis
    using rhe_floor_bounds [of x] rhe_floor_bounds [of y] by linarith
qed

lemma rhe_nonneg: "0 \<le> x \<Longrightarrow> 0 \<le> round_half_even x"
  using rhe_mono [of 0 x] rhe_of_int [of 0] by simp

lemma rhe_le_int: "x \<le> of_int n \<Longrightarrow> round_half_even x \<le> n"
  using rhe_mono [of x "of_int n"] by simp

lemma rhe_ge_int: "of_int n \<le> x \<Longrightarrow> n \<le> round_half_even x"
  using rhe_mono [of "of_int n" x] by simp

lemma rne_zero [simp]: "round_nearest_even 0 = 0"
  by (simp add: round_nearest_even_def)

lemma ulp_exponent_minus [simp]: "ulp_exponent (- q) = ulp_exponent q"
  by (simp add: ulp_exponent_def)

lemma rne_minus: "round_nearest_even (- q) = - round_nearest_even q"
  by (simp add: round_nearest_even_def rhe_minus)

lemma ulp_exponent_low: "- 1074 \<le> ulp_exponent q"
  by (simp add: ulp_exponent_def)

lemma pow2_of_int: "0 \<le> k \<Longrightarrow> (2::rat) powi k = of_int (2 ^ nat k)"
  by (simp add: power_int_def)

lemma rne_exact_strict:
  assumes q: "q = of_int n * 2 powi p" and n: "\<bar>n\<bar> < 2 ^ 53" and p: "- 1074 \<le> p"
  shows "round_nearest_even q = q"
proof (cases "q = 0")
  case True
  then show ?thesis by simp
next
  case False
  then have qpos: "0 < \<bar>q\<bar>" by simp
  define P where "P = ulp_exponent q"
  have "\<bar>q\<bar> = of_int \<bar>n\<bar> * 2 powi p"
    unfolding q by (simp add: abs_mult)
  also have "\<dots> < of_int (2 ^ 53) * 2 powi p"
    using n by (simp only: mult_less_cancel_right_pos pow2_pos of_int_less_iff)
  also have "\<dots> = 2 powi (53 + p)"
    by (simp add: pow2_add)
  finally have "\<bar>q\<bar> < 2 powi (53 + p)" .
  with ilog2_bounds [OF qpos] have "(2::rat) powi (ilog2 \<bar>q\<bar>) < 2 powi (53 + p)"
    by linarith
  then have "ilog2 \<bar>q\<bar> < 53 + p" by (rule pow2_less_cancel)
  with p have Pp: "P \<le> p" unfolding P_def ulp_exponent_def by simp
  have "q / 2 powi P = of_int n * 2 powi (p - P)"
    unfolding q by (simp add: pow2_diff)
  also have "\<dots> = of_int (n * 2 ^ nat (p - P))"
    using Pp by (simp add: pow2_of_int)
  finally have "round_half_even (q / 2 powi P) = n * 2 ^ nat (p - P)"
    by (simp only: rhe_of_int)
  then have "round_nearest_even q = of_int (n * 2 ^ nat (p - P)) * 2 powi P"
    using False unfolding round_nearest_even_def P_def by simp
  also have "\<dots> = of_int n * (2 powi (p - P) * 2 powi P)"
    using Pp by (simp add: pow2_of_int)
  also have "\<dots> = q"
    unfolding q by (simp add: pow2_add [symmetric])
  finally show ?thesis .
qed

lemma rne_exact:
  assumes q: "q = of_int n * 2 powi p" and n: "\<bar>n\<bar> \<le> 2 ^ 53" and p: "- 1074 \<le> p"
  shows "round_nearest_even q = q"
proof (cases "\<bar>n\<bar> < 2 ^ 53")
  case True
  from q True p show ?thesis by (rule rne_exact_strict)
next
  case False
  with n have "\<bar>n\<bar> = 2 ^ 53" by simp
  then have "n = 2 ^ 53 \<or> n = - (2 ^ 53)" by (simp add: abs_if split: if_splits)
  then have "n = 2 * (n div 2)" "\<bar>n div 2\<bar> < 2 ^ 53" by auto
  then have "of_int n = (of_int (n div 2) :: rat) * 2" by (metis mult.commute of_int_mult of_int_numeral)
  then have "q = of_int (n div 2) * 2 powi (p + 1)"
    unfolding q by (simp add: pow2_add)
  then show ?thesis
    using \<open>\<bar>n div 2\<bar> < 2 ^ 53\<close> p by (intro rne_exact_strict [of q "n div 2" "p + 1"]) simp_all
qed

lemma rne_form:
  "\<exists>n. round_nearest_even q = of_int n * 2 powi ulp_exponent q \<and> \<bar>n\<bar> \<le> 2 ^ 53"
proof (cases "q = 0")
  case True
  then show ?thesis by (intro exI [of _ 0]) simp
next
  case False
  then have qpos: "0 < \<bar>q\<bar>" by simp
  define P where "P = ulp_exponent q"
  define n where "n = round_half_even (q / 2 powi P)"
  have eP: "ilog2 \<bar>q\<bar> + 1 - P \<le> 53" unfolding P_def ulp_exponent_def by simp
  have "\<bar>q / 2 powi P\<bar> = \<bar>q\<bar> / 2 powi P" by simp
  also have "\<dots> < 2 powi (ilog2 \<bar>q\<bar> + 1) / 2 powi P"
    using ilog2_bounds [OF qpos] by (simp add: divide_strict_right_mono)
  also have "\<dots> = 2 powi (ilog2 \<bar>q\<bar> + 1 - P)" by (simp only: pow2_diff)
  also have "\<dots> \<le> 2 powi 53" using eP by (rule pow2_mono)
  finally have b: "\<bar>q / 2 powi P\<bar> < of_int (2 ^ 53)" by simp
  then have u: "q / 2 powi P \<le> of_int (2 ^ 53)" and l: "of_int (- (2 ^ 53)) \<le> q / 2 powi P"
    by (simp_all add: abs_if split: if_splits)
  have "n \<le> 2 ^ 53" unfolding n_def using u by (rule rhe_le_int)
  moreover have "- (2 ^ 53) \<le> n" unfolding n_def using l by (rule rhe_ge_int)
  ultimately have "\<bar>n\<bar> \<le> 2 ^ 53" by simp
  moreover have "round_nearest_even q = of_int n * 2 powi ulp_exponent q"
    using False unfolding round_nearest_even_def n_def P_def by simp
  ultimately show ?thesis by blast
qed

lemma rne_idem: "round_nearest_even (round_nearest_even q) = round_nearest_even q"
proof -
  obtain n where "round_nearest_even q = of_int n * 2 powi ulp_exponent q" "\<bar>n\<bar> \<le> 2 ^ 53"
    using rne_form by blast
  then show ?thesis using ulp_exponent_low by (rule rne_exact)
qed

lemma rne_pow2: "- 1074 \<le> k \<Longrightarrow> round_nearest_even (2 powi k) = 2 powi k"
  by (rule rne_exact [of _ 1 k]) simp_all

lemma rne_of_int: "\<bar>k\<bar> \<le> 2 ^ 53 \<Longrightarrow> round_nearest_even (of_int k) = of_int k"
  by (rule rne_exact [of _ k 0]) simp_all

lemma rne_nonneg: "0 \<le> x \<Longrightarrow> 0 \<le> round_nearest_even x"
  unfolding round_nearest_even_def by (simp add: rhe_nonneg)

lemma ulp_exponent_mono:
  assumes "0 < x" "x \<le> y"
  shows "ulp_exponent x \<le> ulp_exponent y"
  using ilog2_mono [OF assms] assms unfolding ulp_exponent_def by simp

lemma rne_mono_pos:
  assumes x: "0 < x" and xy: "x \<le> y"
  shows "round_nearest_even x \<le> round_nearest_even y"
proof -
  from x xy have y: "0 < y" by simp
  define Px where "Px = ulp_exponent x"
  define Py where "Py = ulp_exponent y"
  have rx: "round_nearest_even x = of_int (round_half_even (x / 2 powi Px)) * 2 powi Px"
    using x unfolding round_nearest_even_def Px_def by simp
  have ry: "round_nearest_even y = of_int (round_half_even (y / 2 powi Py)) * 2 powi Py"
    using y unfolding round_nearest_even_def Py_def by simp
  have PP: "Px \<le> Py" unfolding Px_def Py_def using x xy by (rule ulp_exponent_mono)
  show ?thesis
  proof (cases "Px = Py")
    case True
    have "x / 2 powi Py \<le> y / 2 powi Py" using xy by (simp add: divide_right_mono)
    then have "round_half_even (x / 2 powi Py) \<le> round_half_even (y / 2 powi Py)"
      by (rule rhe_mono)
    then show ?thesis unfolding rx ry True by simp
  next
    case False
    with PP have lt: "Px < Py" by simp
    define ey where "ey = ilog2 y"
    have Pxlow: "- 1074 \<le> Px" unfolding Px_def by (rule ulp_exponent_low)
    have Py_eq: "Py = ey - 52"
      using lt Pxlow y unfolding Py_def ulp_exponent_def ey_def by (simp add: max_def split: if_splits)
    have exlt: "ilog2 x - 52 \<le> Px" using x unfolding Px_def ulp_exponent_def by simp
    with lt Py_eq have "ilog2 x + 1 \<le> ey" by simp
    then have "(2::rat) powi (ilog2 x + 1) \<le> 2 powi ey" by (rule pow2_mono)
    with ilog2_bounds [OF x] have xB: "x \<le> 2 powi ey" by linarith
    have By: "2 powi ey \<le> y" using ilog2_bounds [OF y] unfolding ey_def by simp
    have "2 powi ey / 2 powi Py = (2::rat) powi 52"
      unfolding Py_eq by (simp add: pow2_diff [symmetric])
    then have "(of_int (2 ^ 52) :: rat) = 2 powi ey / 2 powi Py" by simp
    also have "\<dots> \<le> y / 2 powi Py" using By by (simp add: divide_right_mono)
    finally have "2 ^ 52 \<le> round_half_even (y / 2 powi Py)" by (rule rhe_ge_int)
    then have "(of_int (2 ^ 52) :: rat) \<le> of_int (round_half_even (y / 2 powi Py))"
      by (simp only: of_int_le_iff)
    then have "of_int (2 ^ 52) * 2 powi Py \<le> round_nearest_even y"
      unfolding ry by (simp only: mult_le_cancel_right_pos pow2_pos)
    moreover have "of_int (2 ^ 52) * 2 powi Py = (2::rat) powi ey"
      unfolding Py_eq by (simp add: pow2_diff)
    ultimately have low: "2 powi ey \<le> round_nearest_even y" by simp
    have d0: "0 \<le> ey - Px" using lt Py_eq by simp
    have "x / 2 powi Px \<le> 2 powi ey / 2 powi Px" using xB by (simp add: divide_right_mono)
    also have "\<dots> = 2 powi (ey - Px)" by (simp only: pow2_diff)
    also have "\<dots> = of_int (2 ^ nat (ey - Px))" using d0 by (rule pow2_of_int)
    finally have "round_half_even (x / 2 powi Px) \<le> 2 ^ nat (ey - Px)" by (rule rhe_le_int)
    then have "(of_int (round_half_even (x / 2 powi Px)) :: rat) \<le> of_int (2 ^ nat (ey - Px))"
      by (simp only: of_int_le_iff)
    then have "round_nearest_even x \<le> of_int (2 ^ nat (ey - Px)) * 2 powi Px"
      unfolding rx by (simp only: mult_le_cancel_right_pos pow2_pos)
    also have "of_int (2 ^ nat (ey - Px)) * 2 powi Px = (2::rat) powi (ey - Px) * 2 powi Px"
      using d0 by (simp only: pow2_of_int)
    also have "\<dots> = 2 powi ey" by (simp add: pow2_add [symmetric])
    finally show ?thesis using low by linarith
  qed
qed

lemma rne_mono:
  assumes "x \<le> y"
  shows "round_nearest_even x \<le> round_nearest_even y"
proof -
  consider "0 < x" | "x \<le> 0" "0 \<le> y" | "y < 0" by linarith
  then show ?thesis
  proof cases
    case 1
    then show ?thesis using assms by (rule rne_mono_pos)
  next
    case 2
    then have "0 \<le> round_nearest_even y" "0 \<le> round_nearest_even (- x)"
      by (simp_all add: rne_nonneg)
    then show ?thesis by (simp add: rne_minus)
  next
    case 3
    then have "0 < - y" "- y \<le> - x" using assms by simp_all
    then have "round_nearest_even (- y) \<le> round_nearest_even (- x)" by (rule rne_mono_pos)
    then show ?thesis by (simp add: rne_minus)
  qed
qed

lemma rne_abs: "\<bar>round_nearest_even q\<bar> = round_nearest_even \<bar>q\<bar>"
proof (cases "0 \<le> q")
  case True
  then show ?thesis using rne_nonneg [of q] by simp
next
  case False
  then have "0 \<le> - q" by simp
  then have "0 \<le> round_nearest_even (- q)" by (rule rne_nonneg)
  then show ?thesis using False by (simp add: rne_minus)
qed

lemma rne_le_pow2:
  assumes "\<bar>q\<bar> \<le> 2 powi k" "- 1074 \<le> k"
  shows "\<bar>round_nearest_even q\<bar> \<le> 2 powi k"
proof -
  have "round_nearest_even \<bar>q\<bar> \<le> round_nearest_even (2 powi k)"
    using assms(1) by (rule rne_mono)
  then show ?thesis using assms(2) by (simp add: rne_abs rne_pow2)
qed

lemma rne_ge_pow2:
  assumes "2 powi k \<le> q" "- 1074 \<le> k"
  shows "2 powi k \<le> round_nearest_even q"
proof -
  have "round_nearest_even (2 powi k) \<le> round_nearest_even q"
    using assms(1) by (rule rne_mono)
  then show ?thesis using assms(2) by (simp add: rne_pow2)
qed

lemma binary64_Finite:
  "\<bar>round_nearest_even q\<bar> < 2 powi 1024 \<Longrightarrow> binary64 q = Finite (round_nearest_even q)"
  unfolding binary64_def Let_def by (simp add: abs_if split: if_splits)

lemma binary64_cases:
  "(binary64 q = Finite (round_nearest_even q) \<and> \<bar>round_nearest_even q\<bar> < 2 powi 1024)
   \<or> (binary64 q = PInf \<and> 2 powi 1024 \<le> round_nearest_even q)
   \<or> (binary64 q = NInf \<and> round_nearest_even q \<le> - (2 powi 1024))"
  unfolding binary64_def Let_def by (simp add: abs_if)

lemma binary64_FiniteD:
  "binary64 q = Finite r \<Longrightarrow> r = round_nearest_even q \<and> \<bar>r\<bar> < 2 powi 1024"
  using binary64_cases [of q] by auto

lemma binary64_not_NaN [simp]: "binary64 q \<noteq> NaN"
  using binary64_cases [of q] by auto

lemma binary64_zero [simp]: "binary64 0 = Finite 0"
  by (simp add: binary64_Finite)

lemma binary64_minus: "binary64 (- q) = fneg (binary64 q)"
  using binary64_cases [of q] pow2_pos [of 1024]
  unfolding binary64_def [of "- q"] Let_def by (auto simp: rne_minus simp del: pow2_pos)

lemma binary64_mono: "x \<le> y \<Longrightarrow> \<not> flt (binary64 y) (binary64 x)"
  using rne_mono [of x y] binary64_cases [of x] binary64_cases [of y] pow2_pos [of 1024]
  by (auto simp del: pow2_pos)

lemma binary64_bounded:
  assumes "\<bar>q\<bar> \<le> 2 powi k" "- 1074 \<le> k" "k < 1024"
  shows "binary64 q = Finite (round_nearest_even q) \<and> \<bar>round_nearest_even q\<bar> \<le> 2 powi k"
proof -
  have b: "\<bar>round_nearest_even q\<bar> \<le> 2 powi k" using assms(1,2) by (rule rne_le_pow2)
  have "(2::rat) powi k < 2 powi 1024"
    by (rule power_int_strict_increasing) (use assms(3) in simp_all)
  with b have "\<bar>round_nearest_even q\<bar> < 2 powi 1024" by linarith
  then show ?thesis using b by (simp add: binary64_Finite)
qed

lemma binary64_exact:
  assumes "q = of_int n * 2 powi p" "\<bar>n\<bar> \<le> 2 ^ 53" "- 1074 \<le> p" "\<bar>q\<bar> < 2 powi 1024"
  shows "binary64 q = Finite q"
  using rne_exact [OF assms(1-3)] assms(4) by (simp add: binary64_Finite)

lemma binary64_of_int:
  assumes "\<bar>k\<bar> \<le> 2 ^ 53"
  shows "binary64 (of_int k) = Finite (of_int k)"
proof -
  have "\<bar>of_int k :: rat\<bar> = of_int \<bar>k\<bar>" by simp
  also have "\<dots> \<le> of_int (2 ^ 53)" using assms by (simp only: of_int_le_iff)
  also have "\<dots> < 2 powi 1024" by simp
  finally show ?thesis using rne_of_int [OF assms] by (simp add: binary64_Finite)
qed

text \<open>Evaluation of a rounding whose binary exponent is known.\<close>

lemma binary64_eval:
  assumes e: "2 powi e \<le> \<bar>q\<bar>" "\<bar>q\<bar> < 2 powi (e + 1)" and r: "- 1022 \<le> e" "e < 1023"
    and n: "\<bar>q / 2 powi (e - 52) - of_int n\<bar> < 1 / 2
            \<or> (\<bar>q / 2 powi (e - 52) - of_int n\<bar> = 1 / 2 \<and> even n)"
  shows "binary64 q = Finite (of_int n * 2 powi (e - 52))"
proof -
  have il: "ilog2 \<bar>q\<bar> = e" using e by (rule ilog2_unique)
  have P: "ulp_exponent q = e - 52" unfolding ulp_exponent_def il using r by simp
  have q0: "q \<noteq> 0"
  proof
    assume "q = 0"
    with e(1) have "(2::rat) powi e \<le> 0" by simp
    then show False using pow2_pos [of e] by linarith
  qed
  have "round_half_even (q / 2 powi (e - 52)) = n" using n by (rule rhe_unique)
  then have rn: "round_nearest_even q = of_int n * 2 powi (e - 52)"
    unfolding round_nearest_even_def P using q0 by simp
  have "\<bar>q\<bar> \<le> 2 powi (e + 1)" using e(2) by simp
  moreover have "- 1074 \<le> e + 1" "e + 1 < 1024" using r by simp_all
  ultimately have "binary64 q = Finite (round_nearest_even q)"
    using binary64_bounded by blast
  then show ?thesis unfolding rn .
qed

lemma lit_001: "binary64 (1 / 100) = Finite (5764607523034235 / 576460752303423488)"
  using binary64_eval [of "- 7" "1 / 100" 5764607523034235] by simp

lemma lit_02: "binary64 (2 / 10) = Finite (3602879701896397 / 18014398509481984)"
  using binary64_eval [of "- 3" "2 / 10" 7205759403792794] by simp

lemma WEIGHT_CALIBRATION_MULTIPLIER_value:
  "WEIGHT_CALIBRATION_MULTIPLIER = Finite (3706642637311013 / 288230376151711744)"
  unfolding WEIGHT_CALIBRATION_MULTIPLIER_def
  using binary64_eval [of "- 7" "1286 / 100000" 7413285274622026] by simp

lemma GRAMS_PER_OUNCE_value:
  "GRAMS_PER_OUNCE = Finite (3989837426129371 / 140737488355328)"
  unfolding GRAMS_PER_OUNCE_def
  using binary64_eval [of 4 "283495 / 10000" 7979674852258742] by simp

section \<open>Frame decoding\<close>

lemma uint_byte_bounds: "0 \<le> uint (b :: byte) \<and> uint b < 256"
  using uint_bounded [of b] by simp

text \<open>
  Claim C1. \<open>get_raw_weight\<close> raises (the spec's \<open>InvalidFrame\<close> is the code's
  \<open>ValueError\<close>) on every frame shorter than 8 bytes, so no value is produced for a short
  frame and nothing is zero-padded; on every frame of at least 8 bytes it returns
  \<open>frame[6] * 256 + frame[7]\<close>, which lies in the unsigned 16-bit range; a frame with
  bytes 0x01 and 0x2C at offsets 6 and 7 decodes to 300.
\<close>

theorem get_raw_weight_spec:
  "(length frame < 8 \<longrightarrow> get_raw_weight frame = Inl ValueError
       \<and> (\<forall>v. get_raw_weight frame \<noteq> Inr v))
   \<and> (8 \<le> length frame \<longrightarrow>
        get_raw_weight frame = Inr (uint (frame ! 6) * 256 + uint (frame ! 7))
        \<and> 0 \<le> uint (frame ! 6) * 256 + uint (frame ! 7)
        \<and> uint (frame ! 6) * 256 + uint (frame ! 7) < 65536)
   \<and> (8 \<le> length frame \<and> frame ! 6 = 0x01 \<and> frame ! 7 = 0x2C \<longrightarrow>
        get_raw_weight frame = Inr 300)"
proof -
  have b6: "0 \<le> uint (frame ! 6) \<and> uint (frame ! 6) < 256"
    by (rule uint_byte_bounds)
  have b7: "0 \<le> uint (frame ! 7) \<and> uint (frame ! 7) < 256"
    by (rule uint_byte_bounds)
  from b6 b7 show ?thesis
    by (auto simp: get_raw_weight_def BUFFER_WEIGHT_INDEX_HIGH_def BUFFER_WEIGHT_INDEX_LOW_def)
qed

theorem get_raw_weight_spec_witness:
  "get_raw_weight [0, 0, 0] = Inl ValueError
   \<and> get_raw_weight [3, 0, 0, 0, 0, 0, 0x01, 0x2C] = Inr 300
   \<and> get_raw_weight [0, 0, 0, 0, 0, 0, 0xFF, 0xFF, 9] = Inr 65535"
  using get_raw_weight_spec [of "[0, 0, 0]"]
    get_raw_weight_spec [of "[3, 0, 0, 0, 0, 0, 0x01, 0x2C]"]
    get_raw_weight_spec [of "[0, 0, 0, 0, 0, 0, 0xFF, 0xFF, 9]"]
  by simp

section \<open>Calibration\<close>

lemma float_of_int_exact: "\<bar>k\<bar> \<le> 2 ^ 53 \<Longrightarrow> float_of_int k = Inr (Finite (of_int k))"
  unfolding float_of_int_def by (simp only: binary64_of_int) simp

lemma calibration_product:
  assumes "\<bar>d\<bar> \<le> 2 ^ 53"
  shows "\<exists>w. binary64 (of_int d * (3706642637311013 / 288230376151711744)) = Finite w
             \<and> (d < 0 \<longleftrightarrow> w < 0) \<and> (d = 0 \<longleftrightarrow> w = 0)"
proof -
  define c :: rat where "c = 3706642637311013 / 288230376151711744"
  define w where "w = round_nearest_even (of_int d * c)"
  have c: "2 powi (- 7) \<le> c" "c \<le> 2 powi (- 6)" unfolding c_def by simp_all
  have cpos: "0 < c" unfolding c_def by simp
  have "\<bar>of_int d * c\<bar> = of_int \<bar>d\<bar> * c" using cpos by (simp add: abs_mult)
  also have "\<dots> \<le> of_int (2 ^ 53) * c"
    using assms cpos by (simp only: mult_le_cancel_right_pos of_int_le_iff)
  also have "\<dots> \<le> of_int (2 ^ 53) * 2 powi (- 6)"
    using c(2) by (intro mult_left_mono) simp_all
  also have "\<dots> = 2 powi 47" by simp
  finally have "\<bar>of_int d * c\<bar> \<le> 2 powi 47" .
  then have fin: "binary64 (of_int d * c) = Finite w"
    unfolding w_def using binary64_bounded [of "of_int d * c" 47] by simp
  have sign: "(d < 0 \<longleftrightarrow> w < 0) \<and> (d = 0 \<longleftrightarrow> w = 0)"
  proof -
    consider "d = 0" | "1 \<le> d" | "d \<le> - 1" by linarith
    then show ?thesis
    proof cases
      case 1
      then show ?thesis by (simp add: w_def)
    next
      case 2
      then have "(1::rat) \<le> of_int d" by simp
      then have "1 * c \<le> of_int d * c" using cpos by (simp only: mult_le_cancel_right_pos)
      then have "c \<le> of_int d * c" by (simp only: mult_1)
      with c(1) have "2 powi (- 7) \<le> of_int d * c" by (rule order_trans)
      then have "2 powi (- 7) \<le> w" unfolding w_def by (rule rne_ge_pow2) simp
      then have "0 < w" using pow2_pos [of "- 7"] by (rule less_le_trans [rotated])
      with 2 show ?thesis by simp
    next
      case 3
      then have "(1::rat) \<le> of_int (- d)" by simp
      then have "1 * c \<le> of_int (- d) * c" using cpos by (simp only: mult_le_cancel_right_pos)
      then have "c \<le> - (of_int d * c)" by (simp only: mult_1 of_int_minus mult_minus_left)
      with c(1) have "2 powi (- 7) \<le> - (of_int d * c)" by (rule order_trans)
      then have "2 powi (- 7) \<le> round_nearest_even (- (of_int d * c))"
        by (rule rne_ge_pow2) simp
      then have "2 powi (- 7) \<le> - w" unfolding w_def by (simp only: rne_minus)
      then have "0 < - w" using pow2_pos [of "- 7"] by (rule less_le_trans [rotated])
      then have "w < 0" by simp
      with 3 show ?thesis by simp
    qed
  qed
  from fin sign show ?thesis unfolding c_def by blast
qed

text \<open>
  Claim C2. For every raw value and offset (16-bit readings, and more generally integers
  whose difference is at most \<open>2 ^ 53\<close> in magnitude, which a float holds exactly),
  \<open>get_calibrated_weight\<close> returns the float product of their difference and the
  calibration constant, the float literal 0.01286. Nothing is clamped: the result is
  negative exactly when the raw value is below the offset, and zero exactly when both
  are equal; in particular the weight of a reading against itself is 0.
\<close>

theorem get_calibrated_weight_spec:
  assumes "\<bar>raw - off\<bar> \<le> 2 ^ 53"
  shows "get_calibrated_weight raw off
           = Inr (fmul (Finite (of_int (raw - off))) WEIGHT_CALIBRATION_MULTIPLIER)
         \<and> WEIGHT_CALIBRATION_MULTIPLIER = binary64 (1286 / 100000)
         \<and> (\<exists>w. get_calibrated_weight raw off = Inr (Finite w)
                \<and> (raw < off \<longleftrightarrow> w < 0) \<and> (raw = off \<longleftrightarrow> w = 0))
         \<and> get_calibrated_weight raw raw = Inr (Finite 0)"
proof -
  have eq: "get_calibrated_weight raw off
              = Inr (fmul (Finite (of_int (raw - off))) WEIGHT_CALIBRATION_MULTIPLIER)"
    unfolding get_calibrated_weight_def Let_def
    by (simp add: float_of_int_exact [OF assms])
  have zero: "get_calibrated_weight raw raw = Inr (Finite 0)"
    unfolding get_calibrated_weight_def Let_def
    by (simp add: float_of_int_exact WEIGHT_CALIBRATION_MULTIPLIER_value)
  obtain w where w: "binary64 (of_int (raw - off) * (3706642637311013 / 288230376151711744)) = Finite w"
    "raw - off < 0 \<longleftrightarrow> w < 0" "raw - off = 0 \<longleftrightarrow> w = 0"
    using calibration_product [OF assms] by blast
  have "get_calibrated_weight raw off = Inr (Finite w)"
    unfolding eq WEIGHT_CALIBRATION_MULTIPLIER_value using w(1) by simp
  then have "\<exists>w. get_calibrated_weight raw off = Inr (Finite w)
                \<and> (raw < off \<longleftrightarrow> w < 0) \<and> (raw = off \<longleftrightarrow> w = 0)"
    using w(2,3) by auto
  with eq zero show ?thesis
    by (simp add: WEIGHT_CALIBRATION_MULTIPLIER_def)
qed

theorem get_calibrated_weight_spec_witness:
  "\<bar>0 - 300\<bar> \<le> (2::int) ^ 53
   \<and> get_calibrated_weight 0 300 = Inr (Finite (- (8687443681197687 / 2251799813685248)))
   \<and> get_calibrated_weight 300 300 = Inr (Finite 0)"
proof -
  have "binary64 (- 300 * (3706642637311013 / 288230376151711744))
          = Finite (- (8687443681197687 / 2251799813685248))"
    using binary64_eval [of 1 "- 300 * (3706642637311013 / 288230376151711744)"
                            "- 8687443681197687"]
    by simp
  note p = this
  have h: "\<bar>0 - 300\<bar> \<le> (2::int) ^ 53" by simp
  from get_calibrated_weight_spec [OF h]
  have "get_calibrated_weight 0 300
          = Inr (fmul (Finite (of_int (0 - 300))) WEIGHT_CALIBRATION_MULTIPLIER)"
    by blast
  then have a: "get_calibrated_weight 0 300
                  = Inr (Finite (- (8687443681197687 / 2251799813685248)))"
    using p by (simp add: WEIGHT_CALIBRATION_MULTIPLIER_value)
  have h2: "\<bar>300 - 300\<bar> \<le> (2::int) ^ 53" by simp
  from get_calibrated_weight_spec [OF h2]
  have b: "get_calibrated_weight 300 300 = Inr (Finite 0)" by blast
  from h a b show ?thesis by blast
qed

section \<open>Key listener: unmapped and exit keys\<close>

lemma of_char_py_upper:
  "(of_char (py_upper c) :: nat)
     = (if 97 \<le> (of_char c :: nat) \<and> (of_char c :: nat) \<le> 122 then of_char c - 32 else of_char c)"
  by (auto simp: py_upper_def intro: mod_less)

lemma py_upper_T: "py_upper key = CHR ''T'' \<longleftrightarrow> key = CHR ''T'' \<or> key = CHR ''t''"
proof -
  have "py_upper key = CHR ''T'' \<longleftrightarrow> (of_char (py_upper key) :: nat) = of_char (CHR ''T'')"
    by (simp only: of_char_eq_iff)
  also have "\<dots> \<longleftrightarrow> (of_char key :: nat) = 84 \<or> (of_char key :: nat) = 116"
    by (auto simp: of_char_py_upper)
  also have "\<dots> \<longleftrightarrow> key = CHR ''T'' \<or> key = CHR ''t''"
    using of_char_eq_iff [of key "CHR ''T''", where ?'a = nat]
      of_char_eq_iff [of key "CHR ''t''", where ?'a = nat] by simp
  finally show ?thesis .
qed

lemma py_upper_R: "py_upper key = CHR ''R'' \<longleftrightarrow> key = CHR ''R'' \<or> key = CHR ''r''"
proof -
  have "py_upper key = CHR ''R'' \<longleftrightarrow> (of_char (py_upper key) :: nat) = of_char (CHR ''R'')"
    by (simp only: of_char_eq_iff)
  also have "\<dots> \<longleftrightarrow> (of_char key :: nat) = 82 \<or> (of_char key :: nat) = 114"
    by (auto simp: of_char_py_upper)
  also have "\<dots> \<longleftrightarrow> key = CHR ''R'' \<or> key = CHR ''r''"
    using of_char_eq_iff [of key "CHR ''R''", where ?'a = nat]
      of_char_eq_iff [of key "CHR ''r''", where ?'a = nat] by simp
  finally show ?thesis .
qed

lemma py_upper_M: "py_upper key = CHR ''M'' \<longleftrightarrow> key = CHR ''M'' \<or> key = CHR ''m''"
proof -
  have "py_upper key = CHR ''M'' \<longleftrightarrow> (of_char (py_upper key) :: nat) = of_char (CHR ''M'')"
    by (simp only: of_char_eq_iff)
  also have "\<dots> \<longleftrightarrow> (of_char key :: nat) = 77 \<or> (of_char key :: nat) = 109"
    by (auto simp: of_char_py_upper)
  also have "\<dots> \<longleftrightarrow> key = CHR ''M'' \<or> key = CHR ''m''"
    using of_char_eq_iff [of key "CHR ''M''", where ?'a = nat]
      of_char_eq_iff [of key "CHR ''m''", where ?'a = nat] by simp
  finally show ?thesis .
qed

lemmas py_upper_simps = py_upper_T py_upper_R py_upper_M

text \<open>
  Claim C10. A key other than \<open>T\<close>, \<open>t\<close>, \<open>R\<close>, \<open>r\<close>, \<open>M\<close>, \<open>m\<close>, ESC and the
  interrupt character changes nothing: the iteration leaves the slot, the debounce
  timestamp and the history of writes as they were and the listener goes on, so the rest
  of the input is treated as if the key had not been pressed.
\<close>

theorem unmapped_key_spec:
  assumes "key \<notin> {CHR ''T'', CHR ''t'', CHR ''R'', CHR ''r'', CHR ''M'', CHR ''m'',
                  CHR 0x1B, CHR 0x03}"
  shows "listener_step L (KeyPress key t) = Continue L
         \<and> keyboard_listener L (KeyPress key t # evs) = keyboard_listener L evs"
proof -
  have "listener_step L (KeyPress key t) = Continue L"
    using assms unfolding listener_step_def Let_def by (simp add: py_upper_simps)
  then show ?thesis by simp
qed

theorem unmapped_key_spec_witness:
  "listener_step \<lparr>action = Some ''tare'', last_action_time = Finite 1700000000,
                  writes = [(''tare'', 1700000000)]\<rparr> (KeyPress (CHR ''x'') 1700000009)
     = Continue \<lparr>action = Some ''tare'', last_action_time = Finite 1700000000,
                 writes = [(''tare'', 1700000000)]\<rparr>"
  using unmapped_key_spec [of "CHR ''x''" "\<lparr>action = Some ''tare'',
      last_action_time = Finite 1700000000, writes = [(''tare'', 1700000000)]\<rparr>" 1700000009 "[]"]
  by simp

lemma lit_02_normal: "binary64 (1 / 5) = Finite (3602879701896397 / 18014398509481984)"
  using lit_02 by simp

lemma binary64_eighth: "binary64 (1 / 8) = Finite (1 / 8)"
  using binary64_exact [of "1 / 8" 1 "- 3"] by simp

text \<open>
  Claim C5 says that ESC and the interrupt character bypass the debounce window. In the
  code the debounce test comes before the key is looked at (the comment there reads
  "ignore input within 200ms of last action"): an ESC that arrives 125 ms after an
  accepted \<open>t\<close> is dropped, and the listener goes on with its state unchanged.
\<close>

theorem exit_key_debounced_counterexample:
  "listener_step listener_start (KeyPress (CHR ''t'') 1700000000)
     = Continue \<lparr>action = Some ''tare'', last_action_time = Finite 1700000000,
                 writes = [(''tare'', 1700000000)]\<rparr>
   \<and> listener_step \<lparr>action = Some ''tare'', last_action_time = Finite 1700000000,
                     writes = [(''tare'', 1700000000)]\<rparr>
                    (KeyPress (CHR 0x1B) (1700000000 + 1 / 8))
     = Continue \<lparr>action = Some ''tare'', last_action_time = Finite 1700000000,
                 writes = [(''tare'', 1700000000)]\<rparr>"
proof -
  have a: "binary64 1700000000 = Finite 1700000000"
    using binary64_of_int [of 1700000000] by simp
  show ?thesis
    unfolding listener_step_def listener_start_def Let_def publish_def
    by (simp add: a lit_02_normal binary64_eighth py_upper_simps)
qed

text \<open>
  Claim C5, as the code has it. ESC or the interrupt character that arrives within the
  debounce window is ignored like any other key. Outside the window it publishes the
  exit token (\<open>exit_esc\<close> or \<open>exit_ctrl_c\<close>) and ends the listener at once, whatever input
  follows, and it leaves \<open>last_action_time\<close> alone.
\<close>

theorem exit_key_spec:
  assumes "key = CHR 0x1B \<or> key = CHR 0x03"
  shows "(flt (fsub (Finite t) (last_action_time L)) (binary64 (2 / 10)) \<longrightarrow>
            listener_step L (KeyPress key t) = Continue L)
         \<and> (\<not> flt (fsub (Finite t) (last_action_time L)) (binary64 (2 / 10)) \<longrightarrow>
            listener_step L (KeyPress key t)
              = Break (L\<lparr>action := Some (if key = CHR 0x1B then ''exit_esc'' else ''exit_ctrl_c''),
                         writes := writes L @ [(if key = CHR 0x1B then ''exit_esc''
                                                else ''exit_ctrl_c'', t)]\<rparr>)
            \<and> keyboard_listener L (KeyPress key t # evs)
              = L\<lparr>action := Some (if key = CHR 0x1B then ''exit_esc'' else ''exit_ctrl_c''),
                   writes := writes L @ [(if key = CHR 0x1B then ''exit_esc''
                                          else ''exit_ctrl_c'', t)]\<rparr>)"
proof -
  have step: "listener_step L (KeyPress key t)
      = (if flt (fsub (Finite t) (last_action_time L)) (binary64 (2 / 10)) then Continue L
         else Break (L\<lparr>action := Some (if key = CHR 0x1B then ''exit_esc'' else ''exit_ctrl_c''),
                         writes := writes L @ [(if key = CHR 0x1B then ''exit_esc''
                                                else ''exit_ctrl_c'', t)]\<rparr>))"
    using assms by (auto simp: listener_step_def Let_def publish_def py_upper_simps)
  show ?thesis
    unfolding keyboard_listener.simps step by simp
qed

theorem exit_key_spec_witness:
  "keyboard_listener listener_start
     [KeyPress (CHR 0x1B) 1700000000, KeyPress (CHR ''t'') 1700000001]
     = \<lparr>action = Some ''exit_esc'', last_action_time = Finite 0,
        writes = [(''exit_esc'', 1700000000)]\<rparr>
   \<and> listener_step \<lparr>action = Some ''tare'', last_action_time = Finite 1700000000,
                     writes = [(''tare'', 1700000000)]\<rparr>
                    (KeyPress (CHR 0x03) (1700000000 + 1 / 8))
     = Continue \<lparr>action = Some ''tare'', last_action_time = Finite 1700000000,
                 writes = [(''tare'', 1700000000)]\<rparr>"
proof -
  have a: "binary64 1700000000 = Finite 1700000000"
    using binary64_of_int [of 1700000000] by simp
  have n: "\<not> flt (fsub (Finite 1700000000) (last_action_time listener_start)) (binary64 (2 / 10))"
    by (simp add: listener_start_def a lit_02_normal)
  have y: "flt (fsub (Finite (1700000000 + 1 / 8))
                 (last_action_time \<lparr>action = Some ''tare'', last_action_time = Finite 1700000000,
                     writes = [(''tare'', 1700000000)]\<rparr>)) (binary64 (2 / 10))"
    by (simp add: binary64_eighth lit_02_normal)
  show ?thesis
    using exit_key_spec [of "CHR 0x1B" 1700000000 listener_start
                            "[KeyPress (CHR ''t'') 1700000001]"] n
      exit_key_spec [of "CHR 0x03" "1700000000 + 1 / 8" "\<lparr>action = Some ''tare'',
          last_action_time = Finite 1700000000, writes = [(''tare'', 1700000000)]\<rparr>" "[]"] y
    by (simp add: listener_start_def)
qed

section \<open>Scale session\<close>

lemma main_loop_absolute_zero:
  "absolute_zero (fst (main_loop s ticks)) = absolute_zero s"
proof (induction ticks arbitrary: s)
  case Nil
  then show ?case by simp
next
  case (Cons t ts)
  have act: "\<And>s'. apply_action s (pending t) = Continue s' \<Longrightarrow> absolute_zero s' = absolute_zero s"
    "\<And>s'. apply_action s (pending t) = Break s' \<Longrightarrow> absolute_zero s' = absolute_zero s"
    by (auto simp: apply_action_def split: if_splits)
  have poll: "\<And>s' rd. absolute_zero (fst (poll_device s' rd)) = absolute_zero s'"
    by (auto simp: poll_device_def Let_def split: sum.splits)
  show ?case
  proof (cases "interrupted t")
    case True
    then show ?thesis by simp
  next
    case False
    show ?thesis
    proof (cases "apply_action s (pending t)")
      case (Break s')
      with False act(2) show ?thesis by simp
    next
      case (Continue s')
      obtain s'' evs where p: "poll_device s' (device t) = (s'', evs)"
        by (cases "poll_device s' (device t)")
      with poll [of s' "device t"] have "absolute_zero s'' = absolute_zero s'" by simp
      with act(1) [OF Continue] Cons.IH [of s''] have "absolute_zero (fst (main_loop s'' ts)) = absolute_zero s"
        by simp
      then show ?thesis using False Continue p by (auto split: prod.splits)
    qed
  qed
qed

text \<open>
  Claim C4. The action dispatch of the main loop: \<open>tare\<close> sets \<open>current_offset\<close> to the
  latest raw value, after which the calibrated weight of that value is 0; \<open>reset\<close> sets
  \<open>current_offset\<close> to \<open>absolute_zero\<close>, also after any run of the loop, whatever actions
  and readings it saw, as no iteration changes \<open>absolute_zero\<close>; \<open>toggle_units\<close> negates
  \<open>is_metric\<close>, and a second toggle gives the first state back; both exit tokens leave
  the loop; each result differs from the state before in the one field named, and an
  empty slot changes nothing.
\<close>

theorem apply_action_spec:
  "apply_action s (Some ''tare'') = Continue (s\<lparr>current_offset := current_raw s\<rparr>)
   \<and> get_calibrated_weight (current_raw (s\<lparr>current_offset := current_raw s\<rparr>))
                            (current_offset (s\<lparr>current_offset := current_raw s\<rparr>))
       = Inr (Finite 0)
   \<and> apply_action s (Some ''reset'') = Continue (s\<lparr>current_offset := absolute_zero s\<rparr>)
   \<and> apply_action (fst (main_loop s ticks)) (Some ''reset'')
       = Continue ((fst (main_loop s ticks))\<lparr>current_offset := absolute_zero s\<rparr>)
   \<and> apply_action s (Some ''toggle_units'') = Continue (s\<lparr>is_metric := \<not> is_metric s\<rparr>)
   \<and> apply_action (s\<lparr>is_metric := \<not> is_metric s\<rparr>) (Some ''toggle_units'') = Continue s
   \<and> apply_action s (Some ''exit_esc'') = Break s
   \<and> apply_action s (Some ''exit_ctrl_c'') = Break s
   \<and> main_loop s (\<lparr>interrupted = False, pending = Some ''exit_esc'', device = rd\<rparr> # ts)
       = (s, [], Exited)
   \<and> main_loop s (\<lparr>interrupted = False, pending = Some ''exit_ctrl_c'', device = rd\<rparr> # ts)
       = (s, [], Exited)
   \<and> apply_action s None = Continue s"
proof -
  have zero: "get_calibrated_weight (current_raw s) (current_raw s) = Inr (Finite 0)"
    unfolding get_calibrated_weight_def Let_def
    by (simp add: float_of_int_exact WEIGHT_CALIBRATION_MULTIPLIER_value)
  have reset: "apply_action (fst (main_loop s ticks)) (Some ''reset'')
       = Continue ((fst (main_loop s ticks))\<lparr>current_offset := absolute_zero s\<rparr>)"
    by (simp add: apply_action_def main_loop_absolute_zero)
  show ?thesis
    using zero reset by (simp add: apply_action_def)
qed

text \<open>
  Claim C9. A device read that raises, returns nothing or returns a frame shorter than 8
  bytes leaves the session state, and with it \<open>current_raw\<close>, unchanged; the exception
  of a raising read and the \<open>ValueError\<close> of a short frame are logged at debug level (an
  empty read raises nothing, so nothing is logged for it); and the loop does not end:
  after the sleep it runs its next iteration from that same state.
\<close>

theorem failed_poll_spec:
  "poll_device s (Inl e) = (s, [StreamRead, LogDebug ''Read error: '' e])
   \<and> poll_device s (Inr []) = (s, [StreamRead])
   \<and> (data \<noteq> [] \<and> length data < 8 \<longrightarrow>
        poll_device s (Inr data) = (s, [StreamRead, LogDebug ''Read error: '' ValueError]))
   \<and> (failed_read (device t) \<and> \<not> interrupted t \<and> apply_action s (pending t) = Continue s' \<longrightarrow>
        fst (poll_device s' (device t)) = s'
        \<and> main_loop s (t # ts)
            = (fst (main_loop s' ts),
               snd (poll_device s' (device t)) @ [Sleep] @ fst (snd (main_loop s' ts)),
               snd (snd (main_loop s' ts))))"
proof -
  have short: "\<And>data. data \<noteq> [] \<Longrightarrow> length data < 8 \<Longrightarrow>
      poll_device s (Inr data) = (s, [StreamRead, LogDebug ''Read error: '' ValueError])"
    by (simp add: poll_device_def get_raw_weight_def)
  have same: "failed_read (device t) \<Longrightarrow> fst (poll_device s' (device t)) = s'"
    by (auto simp: failed_read_def poll_device_def get_raw_weight_def split: sum.splits)
  have loop: "fst (poll_device s' (device t)) = s' \<Longrightarrow> \<not> interrupted t \<Longrightarrow>
      apply_action s (pending t) = Continue s' \<Longrightarrow>
      main_loop s (t # ts)
            = (fst (main_loop s' ts),
               snd (poll_device s' (device t)) @ [Sleep] @ fst (snd (main_loop s' ts)),
               snd (snd (main_loop s' ts)))"
    by (cases "poll_device s' (device t)") (simp split: prod.splits)
  show ?thesis
    using short same loop by (simp add: poll_device_def)
qed

theorem failed_poll_spec_witness:
  "main_loop \<lparr>absolute_zero = 300, current_offset = 300, is_metric = False, current_raw = 412\<rparr>
     [\<lparr>interrupted = False, pending = Some ''toggle_units'', device = Inr [1, 2, 3]\<rparr>,
      \<lparr>interrupted = False, pending = None, device = Inl OSError\<rparr>,
      \<lparr>interrupted = False, pending = None, device = Inr []\<rparr>]
   = (\<lparr>absolute_zero = 300, current_offset = 300, is_metric = True, current_raw = 412\<rparr>,
      [StreamRead, LogDebug ''Read error: '' ValueError, Sleep,
       StreamRead, LogDebug ''Read error: '' OSError, Sleep,
       StreamRead, Sleep],
      Unfinished)"
proof -
  define s0 where "s0 = \<lparr>absolute_zero = 300, current_offset = 300, is_metric = False,
                          current_raw = 412\<rparr>"
  define s1 where "s1 = \<lparr>absolute_zero = 300, current_offset = 300, is_metric = True,
                          current_raw = 412\<rparr>"
  define t1 where "t1 = \<lparr>interrupted = False, pending = Some ''toggle_units'',
                          device = (Inr [1, 2, 3] :: py_error + byte list)\<rparr>"
  define t2 where "t2 = \<lparr>interrupted = False, pending = None,
                          device = (Inl OSError :: py_error + byte list)\<rparr>"
  define t3 where "t3 = \<lparr>interrupted = False, pending = None,
                          device = (Inr [] :: py_error + byte list)\<rparr>"
  have a1: "failed_read (device t1) \<and> \<not> interrupted t1 \<and> apply_action s0 (pending t1) = Continue s1"
    by (simp add: failed_read_def t1_def s0_def s1_def apply_action_def)
  have a2: "failed_read (device t2) \<and> \<not> interrupted t2 \<and> apply_action s1 (pending t2) = Continue s1"
    by (simp add: failed_read_def t2_def apply_action_def)
  have a3: "failed_read (device t3) \<and> \<not> interrupted t3 \<and> apply_action s1 (pending t3) = Continue s1"
    by (simp add: failed_read_def t3_def apply_action_def)
  have p1: "poll_device s1 (device t1) = (s1, [StreamRead, LogDebug ''Read error: '' ValueError])"
    using failed_poll_spec [of s1 OSError "[1, 2, 3]" t1 s1 "[]"] by (simp add: t1_def)
  have p2: "poll_device s1 (device t2) = (s1, [StreamRead, LogDebug ''Read error: '' OSError])"
    using failed_poll_spec [of s1 OSError "[1, 2, 3]" t1 s1 "[]"] by (simp add: t2_def)
  have p3: "poll_device s1 (device t3) = (s1, [StreamRead])"
    using failed_poll_spec [of s1 OSError "[1, 2, 3]" t1 s1 "[]"] by (simp add: t3_def)
  have "main_loop s0 [t1, t2, t3]
          = (s1, [StreamRead, LogDebug ''Read error: '' ValueError, Sleep,
                  StreamRead, LogDebug ''Read error: '' OSError, Sleep,
                  StreamRead, Sleep], Unfinished)"
    using failed_poll_spec [of s0 OSError "[]" t1 s1 "[t2, t3]"] a1
      failed_poll_spec [of s1 OSError "[]" t2 s1 "[t3]"] a2
      failed_poll_spec [of s1 OSError "[]" t3 s1 "[]"] a3
    by (simp add: p1 p2 p3)
  then show ?thesis unfolding s0_def s1_def t1_def t2_def t3_def .
qed

text \<open>
  Claim C8. When no device is listed, or listing or opening one raises, \<open>connect_scale\<close>
  returns \<open>None\<close>, and \<open>main\<close> then prints the troubleshooting message and returns. When
  the device opens and the first read yields no data, \<open>main\<close> logs the error, closes the
  stream and returns. In both cases the result is the same for every behaviour of the
  loop's environment, and the trace has no listener start, no switch to non-blocking
  reads, no sleep and no status line: the loop is never entered.
\<close>

theorem startup_failure_spec:
  "(enumerate h = Inr [] \<or> (\<exists>e. enumerate h = Inl e) \<or> (\<exists>e. open_path h = Inl e)
      \<longrightarrow> \<not> fst (connect_scale h))
   \<and> (\<not> fst (connect_scale h) \<longrightarrow>
        main h first_read ticks = (snd (connect_scale h) @ [Print error_message], Returned))
   \<and> (fst (connect_scale h) \<and> first_read = Inr [] \<longrightarrow>
        main h first_read ticks
          = (snd (connect_scale h)
               @ [InstallSigint, StreamRead, LogError ''Failed to read initial data from device'']
               @ closing,
             Returned))
   \<and> (\<not> fst (connect_scale h) \<or> first_read = Inr [] \<longrightarrow>
        main h first_read ticks = main h first_read []
        \<and> snd (main h first_read ticks) = Returned
        \<and> (\<forall>ev \<in> set (fst (main h first_read ticks)).
              ev \<noteq> ListenerStart \<and> ev \<noteq> SetNonblocking \<and> ev \<noteq> Sleep
              \<and> (\<forall>line. ev \<noteq> StdoutWrite line)))"
proof -
  have ev0: "\<forall>ev \<in> set (snd (connect_scale h)).
              ev \<noteq> ListenerStart \<and> ev \<noteq> SetNonblocking \<and> ev \<noteq> Sleep
              \<and> (\<forall>line. ev \<noteq> StdoutWrite line)"
    by (auto simp: connect_scale_def connect_failed_def split: sum.splits if_splits)
  have nf: "enumerate h = Inr [] \<or> (\<exists>e. enumerate h = Inl e) \<or> (\<exists>e. open_path h = Inl e)
      \<Longrightarrow> \<not> fst (connect_scale h)"
    by (auto simp: connect_scale_def connect_failed_def split: sum.splits)
  have m1: "\<not> fst (connect_scale h) \<Longrightarrow>
        main h first_read ticks = (snd (connect_scale h) @ [Print error_message], Returned)" for ticks
    by (cases "connect_scale h") (simp add: main_def)
  have m2: "fst (connect_scale h) \<Longrightarrow>
        main h (Inr []) ticks
          = (snd (connect_scale h)
               @ [InstallSigint, StreamRead, LogError ''Failed to read initial data from device'']
               @ closing,
             Returned)" for ticks
    by (cases "connect_scale h") (simp add: main_def)
  have m3: "\<not> fst (connect_scale h) \<or> first_read = Inr [] \<Longrightarrow>
        main h first_read ticks = main h first_read []
        \<and> snd (main h first_read ticks) = Returned
        \<and> (\<forall>ev \<in> set (fst (main h first_read ticks)).
              ev \<noteq> ListenerStart \<and> ev \<noteq> SetNonblocking \<and> ev \<noteq> Sleep
              \<and> (\<forall>line. ev \<noteq> StdoutWrite line))"
  proof (cases "fst (connect_scale h)")
    case False
    then show ?thesis using ev0 by (simp add: m1)
  next
    case True
    assume "\<not> fst (connect_scale h) \<or> first_read = Inr []"
    with True have "first_read = Inr []" by simp
    with True show ?thesis using ev0 by (auto simp: m2 closing_def)
  qed
  from nf m1 m2 m3 show ?thesis by auto
qed

theorem startup_failure_spec_witness:
  "main \<lparr>enumerate = Inr [], open_path = Inr (), get_manufacturer_string = Inr ''RadioShack''\<rparr>
        (Inr [0, 0, 0, 0, 0, 0, 1, 44])
        [\<lparr>interrupted = False, pending = None, device = Inr [0, 0, 0, 0, 0, 0, 1, 50]\<rparr>]
     = ([LogDebugMsg ''No devices found with VID=0x2233 PID=0x6323'', Print error_message],
        Returned)
   \<and> main \<lparr>enumerate = Inr [''/dev/hidraw0''], open_path = Inr (),
           get_manufacturer_string = Inr ''RadioShack''\<rparr>
        (Inr [])
        [\<lparr>interrupted = False, pending = None, device = Inr [0, 0, 0, 0, 0, 0, 1, 50]\<rparr>]
     = ([LogInfo ''Successfully opened HID device: RadioShack'', InstallSigint, StreamRead,
         LogError ''Failed to read initial data from device'', StreamClose,
         LogInfo ''HID stream closed'', Print []],
        Returned)"
proof -
  define h1 where "h1 = \<lparr>enumerate = (Inr [] :: py_error + string list), open_path = Inr (),
                          get_manufacturer_string = Inr ''RadioShack''\<rparr>"
  define h2 where "h2 = \<lparr>enumerate = (Inr [''/dev/hidraw0''] :: py_error + string list),
                          open_path = Inr (), get_manufacturer_string = Inr ''RadioShack''\<rparr>"
  have c1: "connect_scale h1 = (False, [LogDebugMsg ''No devices found with VID=0x2233 PID=0x6323''])"
    by (simp add: connect_scale_def h1_def)
  have c2: "connect_scale h2 = (True, [LogInfo ''Successfully opened HID device: RadioShack''])"
    by (simp add: connect_scale_def h2_def)
  show ?thesis
    using startup_failure_spec [of h1 "Inr [0, 0, 0, 0, 0, 0, 1, 44]"
        "[\<lparr>interrupted = False, pending = None, device = Inr [0, 0, 0, 0, 0, 0, 1, 50]\<rparr>]"]
      startup_failure_spec [of h2 "Inr []"
        "[\<lparr>interrupted = False, pending = None, device = Inr [0, 0, 0, 0, 0, 0, 1, 50]\<rparr>]"]
    unfolding h1_def [symmetric] h2_def [symmetric]
    by (simp add: c1 c2 closing_def)
qed

section \<open>Display formatting\<close>

lemma digit_char_digit: "digit_char d \<in> set ''0123456789''"
proof -
  have "d mod 10 < length ''0123456789''" by simp
  then show ?thesis unfolding digit_char_def by (rule nth_mem)
qed

lemma digit_char_not_minus: "digit_char d \<noteq> CHR ''-''"
  using digit_char_digit [of d] by auto

lemma str_nat_digits: "set (str_nat n) \<subseteq> set ''0123456789'' \<and> str_nat n \<noteq> []"
proof (induction n rule: str_nat.induct)
  case (1 n)
  show ?case
  proof (cases "n < 10")
    case True
    then show ?thesis
      using digit_char_digit [of n] by (simp add: str_nat.simps [of n])
  next
    case False
    with "1.IH" have "set (str_nat (n div 10)) \<subseteq> set ''0123456789''" by simp
    then show ?thesis
      using False digit_char_digit [of "n mod 10"] by (simp add: str_nat.simps [of n])
  qed
qed

lemma pad_digits_digits:
  "set (pad_digits d m) \<subseteq> set ''0123456789'' \<and> length (pad_digits d m) = d"
proof (induction d arbitrary: m)
  case 0
  then show ?case by simp
next
  case (Suc d)
  from Suc [of "m div 10"] show ?case
    using digit_char_digit [of "m mod 10"] by simp
qed

lemma fixed_shape:
  assumes "0 < d"
  shows "\<exists>ip fp. fixed d x = ip @ ''.'' @ fp \<and> ip \<noteq> [] \<and> length fp = d
                 \<and> set (ip @ fp) \<subseteq> set ''0123456789''"
proof -
  define n where "n = nat (round_half_even (x * 10 ^ d))"
  have "fixed d x = str_nat (n div 10 ^ d) @ ''.'' @ pad_digits d (n mod 10 ^ d)"
    using assms unfolding fixed_def n_def Let_def by simp
  then show ?thesis
    using str_nat_digits [of "n div 10 ^ d"] pad_digits_digits [of d "n mod 10 ^ d"]
    by (intro exI [of _ "str_nat (n div 10 ^ d)"] exI [of _ "pad_digits d (n mod 10 ^ d)"]) simp
qed

lemma fixed_no_minus: "CHR ''-'' \<notin> set (fixed d x) \<and> fixed d x \<noteq> []"
proof (cases "d = 0")
  case True
  then show ?thesis
    using str_nat_digits [of "nat (round_half_even (x * 10 ^ d))"]
    unfolding fixed_def Let_def by auto
next
  case False
  then obtain ip fp where "fixed d x = ip @ ''.'' @ fp" "ip \<noteq> []"
    "set (ip @ fp) \<subseteq> set ''0123456789''"
    using fixed_shape [of d x] by auto
  then show ?thesis by auto
qed

lemma format_f_nonneg: "0 \<le> q \<Longrightarrow> format_f d (Finite q) = fixed d q"
  by simp

lemma float_of_int_16: "float_of_int 16 = Inr (Finite 16)"
  using float_of_int_exact [of 16] by simp

lemma float_of_int_1000: "float_of_int 1000 = Inr (Finite 1000)"
  using float_of_int_exact [of 1000] by simp

lemma representable_form:
  assumes "binary64 q = Finite q"
  shows "\<exists>n p. q = of_int n * 2 powi p \<and> \<bar>n\<bar> \<le> 2 ^ 53 \<and> - 1074 \<le> p"
proof -
  from binary64_FiniteD [OF assms] have "q = round_nearest_even q" by simp
  with rne_form [of q] ulp_exponent_low [of q] show ?thesis by metis
qed

lemma binary64_abs:
  assumes "binary64 q = Finite q"
  shows "binary64 \<bar>q\<bar> = Finite \<bar>q\<bar>"
proof (cases "0 \<le> q")
  case True
  with assms show ?thesis by simp
next
  case False
  then have "\<bar>q\<bar> = - q" by simp
  then show ?thesis using assms by (simp add: binary64_minus)
qed

lemma floor16_representable:
  assumes rep: "binary64 a = Finite a" and a0: "0 \<le> a"
  shows "binary64 (of_int \<lfloor>a / 16\<rfloor>) = Finite (of_int \<lfloor>a / 16\<rfloor>)
         \<and> binary64 (a - 16 * of_int \<lfloor>a / 16\<rfloor>) = Finite (a - 16 * of_int \<lfloor>a / 16\<rfloor>)"
proof -
  obtain n p where np: "a = of_int n * 2 powi p" "\<bar>n\<bar> \<le> 2 ^ 53" "- 1074 \<le> p"
    using representable_form [OF rep] by blast
  have big: "\<bar>a\<bar> < 2 powi 1024" using binary64_FiniteD [OF rep] by simp
  have n0: "0 \<le> n"
  proof (rule ccontr)
    assume "\<not> 0 \<le> n"
    then have "(of_int n :: rat) < 0" by simp
    then have "of_int n * (2::rat) powi p < 0" by (simp add: mult_neg_pos)
    with a0 np(1) show False by simp
  qed
  define m where "m = \<lfloor>a / 16\<rfloor>"
  define r where "r = a - 16 * of_int m"
  have m0: "0 \<le> m" unfolding m_def using a0 by simp
  have mle: "of_int m \<le> a / 16" unfolding m_def by (rule of_int_floor_le)
  have mgt: "a / 16 < of_int m + 1" unfolding m_def by linarith
  have r0: "0 \<le> r" unfolding r_def using mle by simp
  have rle: "r \<le> a" unfolding r_def using m0 by simp
  have mle_a: "of_int m \<le> a" using mle a0 by simp
  show ?thesis
  proof (cases "4 \<le> p")
    case True
    have "a / 16 = of_int n * (2 powi p / 2 powi 4)" unfolding np(1) by simp
    also have "\<dots> = of_int n * 2 powi (p - 4)" by (simp only: pow2_diff)
    also have "\<dots> = of_int (n * 2 ^ nat (p - 4))" using True by (simp add: pow2_of_int)
    finally have a16: "a / 16 = of_int (n * 2 ^ nat (p - 4))" .
    then have m: "m = n * 2 ^ nat (p - 4)" unfolding m_def by (simp only: floor_of_int)
    have mq: "(of_int m :: rat) = of_int n * 2 powi (p - 4)"
      unfolding m using True by (simp add: pow2_of_int)
    have "\<bar>of_int m :: rat\<bar> < 2 powi 1024" using m0 mle_a big a0 by simp
    with mq np(2,3) True have 1: "binary64 (of_int m) = Finite (of_int m)"
      by (intro binary64_exact [of _ n "p - 4"]) simp_all
    have "r = 0" unfolding r_def using a16 m by simp
    then have 2: "binary64 r = Finite r" by simp
    from 1 2 show ?thesis unfolding r_def m_def by simp
  next
    case False
    then have p4: "0 \<le> 4 - p" "p \<le> 3" by simp_all
    have "(2::rat) powi p \<le> 2 powi 3" using p4(2) by (rule pow2_mono)
    then have "of_int n * (2::rat) powi p \<le> of_int n * 2 powi 3"
      using n0 by (intro mult_left_mono) simp_all
    then have "a / 16 \<le> of_int n / 2" unfolding np(1) by simp
    also have "\<dots> \<le> of_int n" using n0 by simp
    finally have "of_int m \<le> (of_int n :: rat)" using mle by linarith
    then have mn: "m \<le> n" by (simp only: of_int_le_iff)
    with m0 np(2) have "\<bar>m\<bar> \<le> 2 ^ 53" by simp
    then have 1: "binary64 (of_int m) = Finite (of_int m)" by (rule binary64_of_int)
    define n' where "n' = n - m * 2 ^ nat (4 - p)"
    have "(16::rat) = 2 powi (4 - p) * 2 powi p" by (simp add: pow2_add [symmetric])
    also have "\<dots> = of_int (2 ^ nat (4 - p)) * 2 powi p" using p4(1) by (simp only: pow2_of_int)
    finally have "r = of_int n * 2 powi p - of_int (2 ^ nat (4 - p)) * 2 powi p * of_int m"
      unfolding r_def np(1) by simp
    also have "\<dots> = of_int n' * 2 powi p" unfolding n'_def by (simp add: algebra_simps)
    finally have rq: "r = of_int n' * 2 powi p" .
    have "0 \<le> n'"
    proof (rule ccontr)
      assume "\<not> 0 \<le> n'"
      then have "(of_int n' :: rat) < 0" by simp
      then have "of_int n' * (2::rat) powi p < 0" by (simp add: mult_neg_pos)
      with r0 rq show False by simp
    qed
    moreover have "n' \<le> n" unfolding n'_def using m0 by simp
    ultimately have "\<bar>n'\<bar> \<le> 2 ^ 53" using np(2) n0 by simp
    moreover have "\<bar>r\<bar> < 2 powi 1024" using r0 rle big a0 by simp
    ultimately have 2: "binary64 r = Finite r"
      using rq np(3) by (intro binary64_exact [of _ n' p]) simp_all
    from 1 2 show ?thesis unfolding r_def m_def by simp
  qed
qed

lemma sign_prefix_Finite:
  "sign_prefix (Finite q)
     = (if q < - (5764607523034235 / 576460752303423488) then ''-'' else '''')"
  by (simp add: sign_prefix_def lit_001)

lemma format_imperial_small:
  assumes "\<bar>q\<bar> < 16"
  shows "format_weight_display (Finite q) False
           = Inr (sign_prefix (Finite q) @ fixed 2 \<bar>q\<bar> @ '' oz'')"
  using assms unfolding format_weight_display_def Let_def
  by (simp add: fge_int_def OUNCES_PER_POUND_def)

lemma format_imperial_large:
  assumes rep: "binary64 q = Finite q" and big: "16 \<le> \<bar>q\<bar>"
  shows "format_weight_display (Finite q) False
           = Inr (sign_prefix (Finite q) @ str_nat (nat \<lfloor>\<bar>q\<bar> / 16\<rfloor>) @ '' lb ''
                  @ fixed 2 (\<bar>q\<bar> - 16 * of_int \<lfloor>\<bar>q\<bar> / 16\<rfloor>) @ '' oz'')"
proof -
  define a where "a = \<bar>q\<bar>"
  define m where "m = \<lfloor>a / 16\<rfloor>"
  define r where "r = a - 16 * of_int m"
  have a0: "0 \<le> a" unfolding a_def by simp
  have ra: "binary64 a = Finite a" unfolding a_def using rep by (rule binary64_abs)
  from floor16_representable [OF ra a0]
  have fm: "binary64 (of_int m) = Finite (of_int m)" and fr: "binary64 r = Finite r"
    unfolding m_def r_def by simp_all
  have m0: "0 \<le> m" unfolding m_def using a0 by simp
  have "of_int m \<le> a / 16" unfolding m_def by (rule of_int_floor_le)
  then have r0: "0 \<le> r" unfolding r_def by simp
  have ge: "fge_int (Finite a) OUNCES_PER_POUND"
    using big unfolding a_def fge_int_def OUNCES_PER_POUND_def by simp
  have q: "float_floor_div (Finite a) (Finite 16) = Inr (Finite (of_int m))"
    using fm unfolding m_def by simp
  have i: "int_of_float (Finite (of_int m)) = Inr m" using m0 by simp
  have rm: "float_rem (Finite a) (Finite 16) = Inr (Finite r)"
    using fr unfolding r_def m_def by simp
  have s: "str_int m = str_nat (nat m)" using m0 by (simp add: str_int_def)
  have f: "format_f 2 (Finite r) = fixed 2 r" using r0 by simp
  have "format_weight_display (Finite q) False
          = Inr (sign_prefix (Finite q) @ str_nat (nat m) @ '' lb '' @ fixed 2 r @ '' oz'')"
    unfolding format_weight_display_def Let_def fabs.simps a_def [symmetric]
    using ge by (simp add: float_of_int_16 OUNCES_PER_POUND_def q i rm s f
        del: format_f.simps float_floor_div.simps float_rem.simps int_of_float.simps)
  then show ?thesis unfolding r_def m_def a_def .
qed

lemma format_metric:
  assumes g: "fmul (Finite q) GRAMS_PER_OUNCE = Finite g"
  shows "(1000 \<le> \<bar>g\<bar> \<longrightarrow>
            (\<exists>kg. binary64 (\<bar>g\<bar> / 1000) = Finite kg \<and> 0 \<le> kg
                  \<and> format_weight_display (Finite q) True
                      = Inr (sign_prefix (Finite q) @ fixed 3 kg @ '' kg'')))
         \<and> (\<bar>g\<bar> < 1000 \<longrightarrow>
              format_weight_display (Finite q) True
                = Inr (sign_prefix (Finite q) @ fixed 1 \<bar>g\<bar> @ '' g''))"
proof -
  have "binary64 (q * (3989837426129371 / 140737488355328)) = Finite g"
    using g by (simp add: GRAMS_PER_OUNCE_value)
  then have gb: "\<bar>g\<bar> < 2 powi 1024" using binary64_FiniteD by blast
  define kg where "kg = round_nearest_even (\<bar>g\<bar> / 1000)"
  have "\<bar>g\<bar> / 1000 \<le> \<bar>g\<bar> / 2" by (simp add: divide_left_mono)
  also have "\<dots> < 2 powi 1024 / 2" using gb by (simp only: divide_strict_right_mono zero_less_numeral)
  also have "\<dots> = 2 powi (1024 - 1)" by (simp only: pow2_diff) simp
  finally have "\<bar>\<bar>g\<bar> / 1000\<bar> \<le> 2 powi 1023" by simp
  then have k: "binary64 (\<bar>g\<bar> / 1000) = Finite kg"
    unfolding kg_def using binary64_bounded [of "\<bar>g\<bar> / 1000" 1023] by simp
  have k0: "0 \<le> kg" unfolding kg_def by (rule rne_nonneg) simp
  have large: "1000 \<le> \<bar>g\<bar> \<Longrightarrow> format_weight_display (Finite q) True
                      = Inr (sign_prefix (Finite q) @ fixed 3 kg @ '' kg'')"
    unfolding format_weight_display_def Let_def g
    using k k0 by (simp add: fge_int_def GRAMS_PER_KILOGRAM_def float_of_int_1000)
  have small: "\<bar>g\<bar> < 1000 \<Longrightarrow> format_weight_display (Finite q) True
                = Inr (sign_prefix (Finite q) @ fixed 1 \<bar>g\<bar> @ '' g'')"
    unfolding format_weight_display_def Let_def g
    by (simp add: fge_int_def GRAMS_PER_KILOGRAM_def)
  from large small k k0 show ?thesis by blast
qed

lemma grams_finite:
  assumes "\<bar>q\<bar> \<le> 2 powi 1000"
  shows "\<exists>g. fmul (Finite q) GRAMS_PER_OUNCE = Finite g"
proof -
  define c :: rat where "c = 3989837426129371 / 140737488355328"
  have c: "0 \<le> c" "c \<le> 2 powi 5" unfolding c_def by simp_all
  have "\<bar>q * c\<bar> = \<bar>q\<bar> * c" using c(1) by (simp add: abs_mult)
  also have "\<dots> \<le> 2 powi 1000 * 2 powi 5"
    using assms c by (intro mult_mono) simp_all
  also have "\<dots> = 2 powi 1005" by (simp only: pow2_add [symmetric]) simp
  finally have "binary64 (q * c) = Finite (round_nearest_even (q * c))"
    using binary64_bounded [of "q * c" 1005] by simp
  then show ?thesis unfolding c_def by (simp add: GRAMS_PER_OUNCE_value)
qed

lemma format_body:
  assumes rep: "binary64 q = Finite q"
  shows "\<exists>body. format_weight_display (Finite q) metric = Inr (sign_prefix (Finite q) @ body)
               \<and> body \<noteq> [] \<and> CHR ''-'' \<notin> set body"
proof (cases metric)
  case False
  show ?thesis
  proof (cases "16 \<le> \<bar>q\<bar>")
    case True
    have "CHR ''-'' \<notin> set (str_nat (nat \<lfloor>\<bar>q\<bar> / 16\<rfloor>))"
      using str_nat_digits [of "nat \<lfloor>\<bar>q\<bar> / 16\<rfloor>"] by auto
    then show ?thesis
      using format_imperial_large [OF rep True] fixed_no_minus [of 2] \<open>\<not> metric\<close>
      by simp
  next
    case False
    then have "\<bar>q\<bar> < 16" by simp
    from format_imperial_small [OF this] show ?thesis
      using fixed_no_minus [of 2] \<open>\<not> metric\<close> by simp
  qed
next
  case True
  show ?thesis
  proof (cases "fmul (Finite q) GRAMS_PER_OUNCE")
    case (Finite g)
    show ?thesis
    proof (cases "1000 \<le> \<bar>g\<bar>")
      case True
      with format_metric [OF Finite] obtain kg where
        "format_weight_display (Finite q) True = Inr (sign_prefix (Finite q) @ fixed 3 kg @ '' kg'')"
        by blast
      then show ?thesis using fixed_no_minus [of 3] \<open>metric\<close> by simp
    next
      case False
      with format_metric [OF Finite] have
        "format_weight_display (Finite q) True = Inr (sign_prefix (Finite q) @ fixed 1 \<bar>g\<bar> @ '' g'')"
        by simp
      then show ?thesis using fixed_no_minus [of 1] \<open>metric\<close> by simp
    qed
  next
    case PInf
    have "format_weight_display (Finite q) True = Inr (sign_prefix (Finite q) @ ''inf kg'')"
      unfolding format_weight_display_def Let_def PInf
      by (simp add: fge_int_def GRAMS_PER_KILOGRAM_def float_of_int_1000)
    then show ?thesis using \<open>metric\<close> by simp
  next
    case NInf
    have "format_weight_display (Finite q) True = Inr (sign_prefix (Finite q) @ ''inf kg'')"
      unfolding format_weight_display_def Let_def NInf
      by (simp add: fge_int_def GRAMS_PER_KILOGRAM_def float_of_int_1000)
    then show ?thesis using \<open>metric\<close> by simp
  next
    case NaN
    then show ?thesis by (simp add: GRAMS_PER_OUNCE_value)
  qed
qed

lemma fixed_eval:
  assumes "\<bar>x * 10 ^ d - of_int (int n)\<bar> < 1 / 2
           \<or> (\<bar>x * 10 ^ d - of_int (int n)\<bar> = 1 / 2 \<and> even n)"
  shows "fixed d x = (if d = 0 then str_nat n
                      else str_nat (n div 10 ^ d) @ ''.'' @ pad_digits d (n mod 10 ^ d))"
proof -
  have "round_half_even (x * 10 ^ d) = int n"
    by (rule rhe_unique) (use assms in simp)
  then show ?thesis unfolding fixed_def Let_def by auto
qed

lemma str_nat_digit: "n < 10 \<Longrightarrow> str_nat n = [digit_char n]"
  by (simp add: str_nat.simps [of n])

lemma str_nat_step: "10 \<le> n \<Longrightarrow> str_nat n = str_nat (n div 10) @ [digit_char (n mod 10)]"
  by (simp add: str_nat.simps [of n])

lemma pad_digits_step:
  "0 < d \<Longrightarrow> pad_digits d m = pad_digits (d - 1) (m div 10) @ [digit_char (m mod 10)]"
  by (cases d) simp_all

lemmas render_simps = str_nat_digit str_nat_step pad_digits_step digit_char_def

lemma example_zero: "format_weight_display (Finite 0) False = Inr ''0.00 oz''"
proof -
  have "fixed 2 0 = ''0.00''"
    using fixed_eval [of 0 2 0] by (simp add: render_simps)
  then show ?thesis
    using format_imperial_small [of 0] by (simp add: sign_prefix_Finite)
qed

lemma example_twenty: "format_weight_display (Finite 20) False = Inr ''1 lb 4.00 oz''"
proof -
  have r: "binary64 20 = Finite 20" using binary64_of_int [of 20] by simp
  have f: "fixed 2 4 = ''4.00''"
    using fixed_eval [of 4 2 400] by (simp add: render_simps)
  have fl: "\<lfloor>(5::rat) / 4\<rfloor> = 1"
    by (rule floor_unique) simp_all
  show ?thesis
    using format_imperial_large [OF r] by (simp add: sign_prefix_Finite fl f render_simps)
qed

lemma example_forty_grams:
  "fmul (Finite 40) GRAMS_PER_OUNCE = Finite (2493648391330857 / 2199023255552)"
  using binary64_eval [of 10 "40 * (3989837426129371 / 140737488355328)" 4987296782661714]
  by (simp add: GRAMS_PER_OUNCE_value)

lemma example_forty: "format_weight_display (Finite 40) True = Inr ''1.134 kg''"
proof -
  have k: "binary64 (2493648391330857 / 2199023255552 / 1000)
             = Finite (5106991905445595 / 4503599627370496)"
    using binary64_eval [of 0 "2493648391330857 / 2199023255552 / 1000" 5106991905445595]
    by simp
  have f: "fixed 3 (5106991905445595 / 4503599627370496) = ''1.134''"
    using fixed_eval [of "5106991905445595 / 4503599627370496" 3 1134]
    by (simp add: render_simps)
  from format_metric [OF example_forty_grams] obtain kg where
    kg: "binary64 (\<bar>2493648391330857 / 2199023255552\<bar> / 1000) = Finite kg"
    and out: "format_weight_display (Finite 40) True
                = Inr (sign_prefix (Finite 40) @ fixed 3 kg @ '' kg'')"
    by auto
  from kg k have "kg = 5106991905445595 / 4503599627370496" by simp
  with out f show ?thesis by (simp add: sign_prefix_Finite)
qed

lemma example_small_negative_value:
  "binary64 (- 5 / 1000) = Finite (- (5764607523034235 / 1152921504606846976))"
  using binary64_eval [of "- 8" "- 5 / 1000" "- 5764607523034235"] by simp

lemma example_small_negative:
  "format_weight_display (binary64 (- 5 / 1000)) False = Inr ''0.01 oz''"
proof -
  have f: "fixed 2 (5764607523034235 / 1152921504606846976) = ''0.01''"
    using fixed_eval [of "5764607523034235 / 1152921504606846976" 2 1]
    by (simp add: render_simps)
  show ?thesis
    unfolding example_small_negative_value
    using format_imperial_small [of "- (5764607523034235 / 1152921504606846976)"]
    by (simp add: sign_prefix_Finite f)
qed

text \<open>
  Claim C3. For every finite float \<open>q\<close> (a rational that rounding leaves alone) the display
  string is a sign prefix followed by a magnitude. Imperial: from 16 oz on, the whole
  pounds \<open>\<lfloor>\<bar>q\<bar> / 16\<rfloor>\<close>, \<open>lb\<close>, and the exact remainder with 2 decimals; below, the
  ounces with 2 decimals. Metric: the grams are the float product with the literal
  28.3495 (finite at least up to \<open>2 powi 1000\<close> oz); from 1000 g on, the float quotient by
  1000 with 3 decimals and \<open>kg\<close>, below, the grams with 1 decimal and \<open>g\<close>. The prefix
  is \<open>-\<close> exactly when \<open>q\<close> is below the negated float literal 0.01, tested on the
  unrounded value; the magnitude is never empty and has no \<open>-\<close> in it, so a leading
  \<open>-\<close> appears exactly in that case and no component is signed on its own. A rendering
  with \<open>d > 0\<close> decimals is digits, a point and exactly \<open>d\<close> digits. The four examples:
  0.0 oz gives \<open>0.00 oz\<close>, 20.0 oz gives \<open>1 lb 4.00 oz\<close>, 40.0 oz in metric gives
  \<open>1.134 kg\<close>, and the float -0.005 gives \<open>0.01 oz\<close>, without a leading \<open>-\<close>: as a
  binary number 0.005 is a little more than 5/1000 and rounds up.
\<close>

theorem format_weight_display_spec:
  assumes "binary64 q = Finite q"
  shows "(16 \<le> \<bar>q\<bar> \<longrightarrow>
            format_weight_display (Finite q) False
              = Inr (sign_prefix (Finite q) @ str_nat (nat \<lfloor>\<bar>q\<bar> / 16\<rfloor>) @ '' lb ''
                     @ fixed 2 (\<bar>q\<bar> - 16 * of_int \<lfloor>\<bar>q\<bar> / 16\<rfloor>) @ '' oz''))
         \<and> (\<bar>q\<bar> < 16 \<longrightarrow>
              format_weight_display (Finite q) False
                = Inr (sign_prefix (Finite q) @ fixed 2 \<bar>q\<bar> @ '' oz''))
         \<and> GRAMS_PER_OUNCE = binary64 (283495 / 10000)
         \<and> (\<bar>q\<bar> \<le> 2 powi 1000 \<longrightarrow> (\<exists>g. fmul (Finite q) GRAMS_PER_OUNCE = Finite g))
         \<and> (\<forall>g. fmul (Finite q) GRAMS_PER_OUNCE = Finite g \<longrightarrow>
               (1000 \<le> \<bar>g\<bar> \<longrightarrow>
                  (\<exists>kg. binary64 (\<bar>g\<bar> / 1000) = Finite kg \<and> 0 \<le> kg
                        \<and> format_weight_display (Finite q) True
                            = Inr (sign_prefix (Finite q) @ fixed 3 kg @ '' kg'')))
               \<and> (\<bar>g\<bar> < 1000 \<longrightarrow>
                    format_weight_display (Finite q) True
                      = Inr (sign_prefix (Finite q) @ fixed 1 \<bar>g\<bar> @ '' g'')))
         \<and> sign_prefix (Finite q) = (if flt (Finite q) (fneg (binary64 (1 / 100))) then ''-'' else '''')
         \<and> (flt (Finite q) (fneg (binary64 (1 / 100)))
               \<longleftrightarrow> q < - (5764607523034235 / 576460752303423488))
         \<and> (\<forall>metric. \<exists>body.
               format_weight_display (Finite q) metric = Inr (sign_prefix (Finite q) @ body)
               \<and> body \<noteq> [] \<and> CHR ''-'' \<notin> set body)
         \<and> (\<forall>d x. 0 < d \<longrightarrow>
               (\<exists>ip fp. fixed d x = ip @ ''.'' @ fp \<and> ip \<noteq> [] \<and> length fp = d
                        \<and> set (ip @ fp) \<subseteq> set ''0123456789''))
         \<and> format_weight_display (Finite 0) False = Inr ''0.00 oz''
         \<and> format_weight_display (Finite 20) False = Inr ''1 lb 4.00 oz''
         \<and> format_weight_display (Finite 40) True = Inr ''1.134 kg''
         \<and> format_weight_display (binary64 (- 5 / 1000)) False = Inr ''0.01 oz''"
proof -
  have 1: "16 \<le> \<bar>q\<bar> \<longrightarrow>
            format_weight_display (Finite q) False
              = Inr (sign_prefix (Finite q) @ str_nat (nat \<lfloor>\<bar>q\<bar> / 16\<rfloor>) @ '' lb ''
                     @ fixed 2 (\<bar>q\<bar> - 16 * of_int \<lfloor>\<bar>q\<bar> / 16\<rfloor>) @ '' oz'')"
    using format_imperial_large [OF assms] by blast
  have 2: "\<bar>q\<bar> < 16 \<longrightarrow>
              format_weight_display (Finite q) False
                = Inr (sign_prefix (Finite q) @ fixed 2 \<bar>q\<bar> @ '' oz'')"
    using format_imperial_small by blast
  have 3: "GRAMS_PER_OUNCE = binary64 (283495 / 10000)"
    by (rule GRAMS_PER_OUNCE_def)
  have 4: "\<bar>q\<bar> \<le> 2 powi 1000 \<longrightarrow> (\<exists>g. fmul (Finite q) GRAMS_PER_OUNCE = Finite g)"
    using grams_finite by blast
  have 5: "\<forall>g. fmul (Finite q) GRAMS_PER_OUNCE = Finite g \<longrightarrow>
               (1000 \<le> \<bar>g\<bar> \<longrightarrow>
                  (\<exists>kg. binary64 (\<bar>g\<bar> / 1000) = Finite kg \<and> 0 \<le> kg
                        \<and> format_weight_display (Finite q) True
                            = Inr (sign_prefix (Finite q) @ fixed 3 kg @ '' kg'')))
               \<and> (\<bar>g\<bar> < 1000 \<longrightarrow>
                    format_weight_display (Finite q) True
                      = Inr (sign_prefix (Finite q) @ fixed 1 \<bar>g\<bar> @ '' g''))"
    using format_metric by blast
  have 6: "sign_prefix (Finite q)
             = (if flt (Finite q) (fneg (binary64 (1 / 100))) then ''-'' else '''')"
    by (rule sign_prefix_def)
  have 7: "flt (Finite q) (fneg (binary64 (1 / 100)))
               \<longleftrightarrow> q < - (5764607523034235 / 576460752303423488)"
    by (simp add: lit_001)
  have 8: "\<forall>metric. \<exists>body.
               format_weight_display (Finite q) metric = Inr (sign_prefix (Finite q) @ body)
               \<and> body \<noteq> [] \<and> CHR ''-'' \<notin> set body"
    using format_body [OF assms] by blast
  have 9: "\<forall>d x. 0 < d \<longrightarrow>
               (\<exists>ip fp. fixed d x = ip @ ''.'' @ fp \<and> ip \<noteq> [] \<and> length fp = d
                        \<and> set (ip @ fp) \<subseteq> set ''0123456789'')"
    using fixed_shape by blast
  from 1 2 3 4 5 6 7 8 9 example_zero example_twenty example_forty example_small_negative
  show ?thesis by blast
qed

lemma binary64_idem:
  assumes "binary64 q = Finite r"
  shows "binary64 r = Finite r"
proof -
  from binary64_FiniteD [OF assms] have r: "r = round_nearest_even q" "\<bar>r\<bar> < 2 powi 1024"
    by blast+
  have i: "round_nearest_even r = r" unfolding r(1) by (rule rne_idem)
  with r(2) have "\<bar>round_nearest_even r\<bar> < 2 powi 1024" by (simp only:)
  then have "binary64 r = Finite (round_nearest_even r)" by (rule binary64_Finite)
  then show ?thesis by (simp only: i)
qed

theorem format_weight_display_spec_witness:
  "binary64 (- 1234) = Finite (- 1234)
   \<and> format_weight_display (Finite (- 1234)) False = Inr ''-77 lb 2.00 oz''
   \<and> format_weight_display (Finite (- 1234)) True = Inr ''-34.983 kg''
   \<and> format_weight_display (binary64 (- 5 / 100)) False = Inr ''-0.05 oz''
   \<and> format_weight_display (binary64 (- 5 / 100)) True = Inr ''-1.4 g''"
proof -
  have rep: "binary64 (- 1234) = Finite (- 1234)"
    using binary64_of_int [of "- 1234"] by simp
  note spec = format_weight_display_spec [OF rep]
  have fl: "\<lfloor>(617::rat) / 8\<rfloor> = 77" by (rule floor_unique) simp_all
  have f2: "fixed 2 2 = ''2.00''"
    using fixed_eval [of 2 2 200] by (simp add: render_simps)
  have "format_weight_display (Finite (- 1234)) False
          = Inr (sign_prefix (Finite (- 1234)) @ str_nat (nat \<lfloor>\<bar>- 1234 :: rat\<bar> / 16\<rfloor>) @ '' lb ''
                 @ fixed 2 (\<bar>- 1234\<bar> - 16 * of_int \<lfloor>\<bar>- 1234 :: rat\<bar> / 16\<rfloor>) @ '' oz'')"
    using spec by simp
  then have a: "format_weight_display (Finite (- 1234)) False = Inr ''-77 lb 2.00 oz''"
    by (simp add: sign_prefix_Finite fl f2 render_simps)
  have g: "fmul (Finite (- 1234)) GRAMS_PER_OUNCE = Finite (- (601008225566851 / 17179869184))"
    using binary64_eval [of 15 "- 1234 * (3989837426129371 / 140737488355328)"
                            "- 4808065804534808"]
    by (simp add: GRAMS_PER_OUNCE_value)
  have k: "binary64 (601008225566851 / 17179869184 / 1000)
             = Finite (4923459383843643 / 140737488355328)"
    using binary64_eval [of 5 "601008225566851 / 17179869184 / 1000" 4923459383843643]
    by simp
  have f3: "fixed 3 (4923459383843643 / 140737488355328) = ''34.983''"
    using fixed_eval [of "4923459383843643 / 140737488355328" 3 34983]
    by (simp add: render_simps)
  from spec g obtain kg where
    kg: "binary64 (\<bar>- (601008225566851 / 17179869184)\<bar> / 1000) = Finite kg"
    and out: "format_weight_display (Finite (- 1234)) True
                = Inr (sign_prefix (Finite (- 1234)) @ fixed 3 kg @ '' kg'')"
    by auto
  from kg k have "kg = 4923459383843643 / 140737488355328" by simp
  with out f3 have b: "format_weight_display (Finite (- 1234)) True = Inr ''-34.983 kg''"
    by (simp add: sign_prefix_Finite)
  have v: "binary64 (- 5 / 100) = Finite (- (3602879701896397 / 72057594037927936))"
    using binary64_eval [of "- 5" "- 5 / 100" "- 7205759403792794"] by simp
  note spec2 = format_weight_display_spec [OF binary64_idem [OF v]]
  have f4: "fixed 2 (3602879701896397 / 72057594037927936) = ''0.05''"
    using fixed_eval [of "3602879701896397 / 72057594037927936" 2 5]
    by (simp add: render_simps)
  have c: "format_weight_display (binary64 (- 5 / 100)) False = Inr ''-0.05 oz''"
    unfolding v using spec2 by (simp add: sign_prefix_Finite f4)
  have g2: "fmul (Finite (- (3602879701896397 / 72057594037927936))) GRAMS_PER_OUNCE
              = Finite (- (3191869940903497 / 2251799813685248))"
    using binary64_eval [of 0 "- (3602879701896397 / 72057594037927936)
                                 * (3989837426129371 / 140737488355328)"
                            "- 6383739881806994"]
    by (simp add: GRAMS_PER_OUNCE_value)
  have f5: "fixed 1 (3191869940903497 / 2251799813685248) = ''1.4''"
    using fixed_eval [of "3191869940903497 / 2251799813685248" 1 14]
    by (simp add: render_simps)
  from spec2 g2 have "format_weight_display (Finite (- (3602879701896397 / 72057594037927936))) True
      = Inr (sign_prefix (Finite (- (3602879701896397 / 72057594037927936)))
             @ fixed 1 \<bar>- (3191869940903497 / 2251799813685248)\<bar> @ '' g'')"
    by auto
  then have d: "format_weight_display (binary64 (- 5 / 100)) True = Inr ''-1.4 g''"
    unfolding v using f5 by (simp add: sign_prefix_Finite)
  from rep a b c d show ?thesis by blast
qed

end
